theory Spec2Isabelle
  imports Complex_Main "HOL-Library.Multiset" "HOL-Library.Sublist"
begin

section \<open>JavaScript numbers\<close>

text \<open>
  Polygon.js computes on JavaScript numbers (IEEE-754 doubles).  Two views are used.

  \<^item> Vertex coordinates are finite numbers (the constructor refuses everything else) and
    are modelled as \<^typ>\<open>real\<close>: rounding, overflow and the sign of a zero coordinate are
    not modelled.
  \<^item> Where the source divides without looking at the divisor, the outcome is a
    \<open>jsnum\<close>: a finite value, negative zero, an infinity or NaN, with the IEEE-754 rules
    for the special values and exact arithmetic on the finite ones.  \<open>Fin 0\<close> is \<open>+0\<close>.
  \<^item> In \<open>simplify\<close> the outcome depends on how the distances are rounded: there every
    operation is computed on \<open>jsnum\<close> and its result is rounded to a double (section
    \<open>Rounding to a double\<close>).
\<close>

datatype jsnum = Fin real | NegZero | PInf | NInf | NaN

fun is_nan :: "jsnum \<Rightarrow> bool" where
  "is_nan NaN = True"
| "is_nan _ = False"

fun is_inf :: "jsnum \<Rightarrow> bool" where
  "is_inf PInf = True"
| "is_inf NInf = True"
| "is_inf _ = False"

fun is_zero :: "jsnum \<Rightarrow> bool" where
  "is_zero (Fin r) = (r = 0)"
| "is_zero NegZero = True"
| "is_zero _ = False"

text \<open>\<open>isFinite\<close> of JavaScript.\<close>

fun isFinite :: "jsnum \<Rightarrow> bool" where
  "isFinite (Fin r) = True"
| "isFinite NegZero = True"
| "isFinite _ = False"

text \<open>The sign bit, and the value of a finite number.\<close>

fun sgnbit :: "jsnum \<Rightarrow> bool" where
  "sgnbit (Fin r) = (r < 0)"
| "sgnbit NegZero = True"
| "sgnbit NInf = True"
| "sgnbit _ = False"

fun fin_val :: "jsnum \<Rightarrow> real" where
  "fin_val (Fin r) = r"
| "fin_val _ = 0"

definition signed_zero :: "bool \<Rightarrow> jsnum" where
  "signed_zero s = (if s then NegZero else Fin 0)"

definition signed_inf :: "bool \<Rightarrow> jsnum" where
  "signed_inf s = (if s then NInf else PInf)"

fun jneg :: "jsnum \<Rightarrow> jsnum" where
  "jneg (Fin r) = (if r = 0 then NegZero else Fin (- r))"
| "jneg NegZero = Fin 0"
| "jneg PInf = NInf"
| "jneg NInf = PInf"
| "jneg NaN = NaN"

fun jadd :: "jsnum \<Rightarrow> jsnum \<Rightarrow> jsnum" where
  "jadd NaN _ = NaN"
| "jadd _ NaN = NaN"
| "jadd PInf NInf = NaN"
| "jadd NInf PInf = NaN"
| "jadd PInf _ = PInf"
| "jadd _ PInf = PInf"
| "jadd NInf _ = NInf"
| "jadd _ NInf = NInf"
| "jadd NegZero NegZero = NegZero"
| "jadd NegZero (Fin b) = Fin b"
| "jadd (Fin a) NegZero = Fin a"
| "jadd (Fin a) (Fin b) = Fin (a + b)"

definition jmul :: "jsnum \<Rightarrow> jsnum \<Rightarrow> jsnum" where
  "jmul x y =
     (if is_nan x \<or> is_nan y then NaN
      else if is_inf x \<or> is_inf y then
        (if is_zero x \<or> is_zero y then NaN else signed_inf (sgnbit x \<noteq> sgnbit y))
      else if fin_val x * fin_val y = 0 then signed_zero (sgnbit x \<noteq> sgnbit y)
      else Fin (fin_val x * fin_val y))"

definition jdiv :: "jsnum \<Rightarrow> jsnum \<Rightarrow> jsnum" where
  "jdiv x y =
     (if is_nan x \<or> is_nan y then NaN
      else if is_inf x then (if is_inf y then NaN else signed_inf (sgnbit x \<noteq> sgnbit y))
      else if is_inf y then signed_zero (sgnbit x \<noteq> sgnbit y)
      else if is_zero y then (if is_zero x then NaN else signed_inf (sgnbit x \<noteq> sgnbit y))
      else if is_zero x then signed_zero (sgnbit x \<noteq> sgnbit y)
      else Fin (fin_val x / fin_val y))"

text \<open>Comparisons: every comparison with NaN is false, and \<open>-0\<close> equals \<open>+0\<close>.\<close>

definition jlt :: "jsnum \<Rightarrow> jsnum \<Rightarrow> bool" where
  "jlt x y =
     (if is_nan x \<or> is_nan y then False
      else if x = PInf \<or> y = NInf then False
      else if x = NInf \<or> y = PInf then True
      else fin_val x < fin_val y)"

definition jle :: "jsnum \<Rightarrow> jsnum \<Rightarrow> bool" where
  "jle x y =
     (if is_nan x \<or> is_nan y then False
      else if x = NInf \<or> y = PInf then True
      else if x = PInf \<or> y = NInf then False
      else fin_val x \<le> fin_val y)"

fun jabs :: "jsnum \<Rightarrow> jsnum" where
  "jabs (Fin r) = Fin \<bar>r\<bar>"
| "jabs NegZero = Fin 0"
| "jabs PInf = PInf"
| "jabs NInf = PInf"
| "jabs NaN = NaN"

fun jsqrt :: "jsnum \<Rightarrow> jsnum" where
  "jsqrt (Fin r) = (if r < 0 then NaN else Fin (sqrt r))"
| "jsqrt NegZero = NegZero"
| "jsqrt PInf = PInf"
| "jsqrt NInf = NaN"
| "jsqrt NaN = NaN"

instantiation jsnum :: "{plus, minus, uminus, times, inverse, ord, abs}"
begin

definition plus_jsnum :: "jsnum \<Rightarrow> jsnum \<Rightarrow> jsnum" where
  "plus_jsnum x y = jadd x y"

definition uminus_jsnum :: "jsnum \<Rightarrow> jsnum" where
  "uminus_jsnum x = jneg x"

definition minus_jsnum :: "jsnum \<Rightarrow> jsnum \<Rightarrow> jsnum" where
  "minus_jsnum x y = jadd x (jneg y)"

definition times_jsnum :: "jsnum \<Rightarrow> jsnum \<Rightarrow> jsnum" where
  "times_jsnum x y = jmul x y"

definition divide_jsnum :: "jsnum \<Rightarrow> jsnum \<Rightarrow> jsnum" where
  "divide_jsnum x y = jdiv x y"

definition inverse_jsnum :: "jsnum \<Rightarrow> jsnum" where
  "inverse_jsnum x = jdiv (Fin 1) x"

definition less_jsnum :: "jsnum \<Rightarrow> jsnum \<Rightarrow> bool" where
  "less_jsnum x y = jlt x y"

definition less_eq_jsnum :: "jsnum \<Rightarrow> jsnum \<Rightarrow> bool" where
  "less_eq_jsnum x y = jle x y"

definition abs_jsnum :: "jsnum \<Rightarrow> jsnum" where
  "abs_jsnum x = jabs x"

instance ..

end

section \<open>Polygons\<close>

text \<open>
  A \<open>Polygon\<close> holds the parallel arrays \<open>_X\<close> and \<open>_Y\<close>; every constructor and every
  mutator of the source changes both in step, so a polygon is the list of its
  \<open>(x, y)\<close> vertices.  The polygon is closed: the last vertex is connected to the first.
\<close>

type_synonym vertex = "real \<times> real"
type_synonym polygon = "vertex list"

definition getX :: "polygon \<Rightarrow> jsnum list" where
  "getX p = map (\<lambda>v. Fin (fst v)) p"

definition getY :: "polygon \<Rightarrow> jsnum list" where
  "getY p = map (\<lambda>v. Fin (snd v)) p"

definition size_poly :: "polygon \<Rightarrow> nat" where
  "size_poly p = length p"

text \<open>
  \<open>this._diff\<close>: the differences of consecutive elements, closed by first minus last.
  On the empty array the source pushes \<open>undefined - undefined\<close>, which is NaN.
\<close>

definition diff :: "jsnum list \<Rightarrow> jsnum list" where
  "diff xs = (if xs = [] then [NaN]
              else map (\<lambda>(a, b). b - a) (zip (butlast xs) (tl xs)) @ [hd xs - last xs])"

section \<open>Moment calculator: \<open>data\<close>\<close>

text \<open>
  The helpers of \<open>data\<close>.  Each reduction runs over its first array from the left,
  starting at \<open>0\<close>; in every call the other arrays are at least as long as the first.
\<close>

definition sum_js :: "jsnum list \<Rightarrow> jsnum" where
  "sum_js xs = foldl (\<lambda>prev x. prev + x) (Fin 0) xs"

definition dot2 :: "jsnum list \<Rightarrow> jsnum list \<Rightarrow> jsnum" where
  "dot2 a b = foldl (\<lambda>prev (x, y). prev + x * y) (Fin 0) (zip a b)"

definition dot3 :: "jsnum list \<Rightarrow> jsnum list \<Rightarrow> jsnum list \<Rightarrow> jsnum" where
  "dot3 a b c = foldl (\<lambda>prev (x, y, z). prev + x * y * z) (Fin 0) (zip a (zip b c))"

definition dot4 :: "jsnum list \<Rightarrow> jsnum list \<Rightarrow> jsnum list \<Rightarrow> jsnum list \<Rightarrow> jsnum" where
  "dot4 a b c d =
     foldl (\<lambda>prev (x, y, z, w). prev + x * y * z * w) (Fin 0) (zip a (zip b (zip c d)))"

text \<open>The perimeter: \<open>_sum(_sqrt(_add(_pow(_dx, 2), _pow(_dy, 2))))\<close>.\<close>

definition perimeter :: "jsnum list \<Rightarrow> jsnum list \<Rightarrow> jsnum" where
  "perimeter dx dy = sum_js (map (\<lambda>(a, b). jsqrt (a * a + b * b)) (zip dx dy))"

record MomentResult =
  area :: jsnum
  centroidX :: jsnum
  centroidY :: jsnum
  perim :: jsnum
  Ixx :: jsnum
  Iyy :: jsnum
  Ixy :: jsnum
  Iuu :: jsnum
  Ivv :: jsnum
  Iuv :: jsnum

text \<open>
  The raw sums of \<open>data\<close>, before the sign is canonicalized: the mean of the vertices,
  the translated coordinates and their cyclic differences, and
  \<open>(_A, _Cx, _Cy, _Ixx, _Iyy, _Ixy)\<close>.
\<close>

definition mean_js :: "jsnum list \<Rightarrow> jsnum" where
  "mean_js xs = sum_js xs / Fin (real (length xs))"

definition translated :: "jsnum list \<Rightarrow> jsnum list" where
  "translated xs = map (\<lambda>x. x - mean_js xs) xs"

definition raw_A :: "polygon \<Rightarrow> jsnum" where
  "raw_A p =
     (let x = translated (getX p); y = translated (getY p); dx = diff x; dy = diff y
      in (dot2 y dx - dot2 x dy) / Fin 2)"

definition raw_Cx :: "polygon \<Rightarrow> jsnum" where
  "raw_Cx p =
     (let x = translated (getX p); y = translated (getY p); dx = diff x; dy = diff y
      in (Fin 6 * dot3 x y dx - Fin 3 * dot3 x x dy + Fin 3 * dot3 y dx dx + dot3 dx dx dy)
         / Fin 12)"

definition raw_Cy :: "polygon \<Rightarrow> jsnum" where
  "raw_Cy p =
     (let x = translated (getX p); y = translated (getY p); dx = diff x; dy = diff y
      in (Fin 3 * dot3 y y dx - Fin 6 * dot3 x y dy - Fin 3 * dot3 x dy dy - dot3 dx dy dy)
         / Fin 12)"

definition raw_Ixx :: "polygon \<Rightarrow> jsnum" where
  "raw_Ixx p =
     (let x = translated (getX p); y = translated (getY p); dx = diff x; dy = diff y
      in (Fin 2 * dot4 y y y dx - Fin 6 * dot4 x y y dy - Fin 6 * dot4 x y dy dy
          + Fin (- 2) * dot4 x dy dy dy - Fin 2 * dot4 y dx dy dy - dot4 dx dy dy dy)
         / Fin 12)"

definition raw_Iyy :: "polygon \<Rightarrow> jsnum" where
  "raw_Iyy p =
     (let x = translated (getX p); y = translated (getY p); dx = diff x; dy = diff y
      in (Fin 6 * dot4 x x y dx - Fin 2 * dot4 x x x dy + Fin 6 * dot4 x y dx dx
          + Fin 2 * dot4 y dx dx dx + Fin 2 * dot4 x dx dx dy + dot4 dx dx dx dy)
         / Fin 12)"

definition raw_Ixy :: "polygon \<Rightarrow> jsnum" where
  "raw_Ixy p =
     (let x = translated (getX p); y = translated (getY p); dx = diff x; dy = diff y
      in (Fin 6 * dot4 x y y dx - Fin 6 * dot4 x x y dy + Fin 3 * dot4 y y dx dx
          + Fin (- 3) * dot4 x x dy dy + Fin 2 * dot4 y dx dx dy - Fin 2 * dot4 x dx dy dy)
         / Fin 24)"

text \<open>
  \<open>data\<close>: the sums are negated when the raw area is negative, the centroidal moments
  are taken, and the mean is added back.  The assignments are kept in the source's
  order: \<open>_Cx\<close> and \<open>_Cy\<close> are overwritten before \<open>_Ixx\<close>, \<open>_Iyy\<close>, \<open>_Ixy\<close> read them.
\<close>

definition data :: "polygon \<Rightarrow> MomentResult" where
  "data p =
     (let xm = mean_js (getX p); ym = mean_js (getY p);
          dx = diff (translated (getX p)); dy = diff (translated (getY p));
          p0 = perimeter dx dy;
          neg = (raw_A p < Fin 0);
          A = (if neg then - raw_A p else raw_A p);
          Cx = (if neg then - raw_Cx p else raw_Cx p);
          Cy = (if neg then - raw_Cy p else raw_Cy p);
          Ixx0 = (if neg then - raw_Ixx p else raw_Ixx p);
          Iyy0 = (if neg then - raw_Iyy p else raw_Iyy p);
          Ixy0 = (if neg then - raw_Ixy p else raw_Ixy p);
          xc = Cx / A;
          yc = Cy / A;
          Iuu1 = Ixx0 - A * yc * yc;
          Ivv1 = Iyy0 - A * xc * xc;
          Iuv1 = Ixy0 - A * xc * yc;
          Cx1 = xm + Cx;
          Cy1 = ym + Cy;
          Ixx1 = Iuu1 + A * Cy1 * Cy1;
          Iyy1 = Ivv1 + A * Cx1 * Cx1;
          Ixy1 = Iuv1 * A * Cx1 * Cy1
      in \<lparr> area = A, centroidX = Cx1, centroidY = Cy1, perim = p0,
           Ixx = Ixx1, Iyy = Iyy1, Ixy = Ixy1, Iuu = Iuu1, Ivv = Ivv1, Iuv = Iuv1 \<rparr>)"

text \<open>
  \<open>isClockWise\<close>: the loop runs over \<open>_i < _size - 1\<close>, that is over the consecutive
  pairs of vertices; the closing pair (last, first) is not visited.
\<close>

definition isClockWise :: "polygon \<Rightarrow> bool" where
  "isClockWise p =
     (foldl (\<lambda>s ((x0, y0), (x1, y1)). s + x0 * y1 - y0 * x1) 0 (zip (butlast p) (tl p)) < 0)"

section \<open>Point in polygon: \<open>inside\<close>\<close>

text \<open>
  One step of the ray-casting loop, for the edge from vertex \<open>_j\<close> to vertex \<open>_i\<close>.
  The quotient is only evaluated when the first conjunct holds, and then the two
  ordinates differ.
\<close>

definition crossing :: "vertex \<Rightarrow> vertex \<Rightarrow> real \<Rightarrow> real \<Rightarrow> bool" where
  "crossing vi vj x y =
     (((snd vi > y) \<noteq> (snd vj > y)) \<and>
      x < fst vi + (fst vj - fst vi) * (y - snd vi) / (snd vj - snd vi))"

text \<open>
  The loop starts with \<open>_j\<close> at the last vertex and then lets \<open>_j\<close> follow \<open>_i\<close>: the
  pairs \<open>(_j, _i)\<close> are (last, first), (first, second), and so on.
\<close>

definition inside :: "polygon \<Rightarrow> real \<Rightarrow> real \<Rightarrow> bool" where
  "inside p x y =
     (if p = [] then False
      else foldl (\<lambda>xo_inside (vj, vi). if crossing vi vj x y then \<not> xo_inside else xo_inside)
             False (zip (last p # butlast p) p))"

section \<open>Structural operations used by \<open>union\<close>\<close>

text \<open>
  \<open>remove\<close> with a number as argument (the form \<open>union\<close> calls): \<open>splice(_index, 1)\<close>
  when \<open>_index <= length\<close>; at \<open>_index = length\<close> the splice removes nothing.
\<close>

definition remove :: "polygon \<Rightarrow> nat \<Rightarrow> polygon" where
  "remove p i = (if i \<le> length p then take i p @ drop (Suc i) p else p)"

text \<open>\<open>slice(0, size())\<close> copies the polygon into a new instance.\<close>

definition slice_all :: "polygon \<Rightarrow> polygon" where
  "slice_all p = take (length p) (drop 0 p)"

definition insertPolygon :: "polygon \<Rightarrow> nat \<Rightarrow> polygon \<Rightarrow> polygon" where
  "insertPolygon p i q = (if i < length p then take i p @ q @ drop i p else p @ q)"

text \<open>
  The two trimming loops of \<open>union\<close>:
  \<^verbatim>\<open>for (_i = 0, _len = _this.size(); _i < _len; _i++) {
      if (_ipolygon.inside(_this._X[_i], _this._Y[_i])) { _this.remove(_i); } }\<close>
  \<open>_len\<close> is read once, before the loop, and \<open>_i\<close> advances after a removal too.
  Once \<open>_i\<close> is past the end of the shortened array the coordinates read are
  \<open>undefined\<close>; every comparison of \<open>inside\<close> is then false and nothing is removed.
\<close>

definition trim_step :: "polygon \<Rightarrow> nat \<Rightarrow> polygon \<Rightarrow> polygon" where
  "trim_step other i cur =
     (if i < length cur \<and> inside other (fst (cur ! i)) (snd (cur ! i)) then remove cur i
      else cur)"

definition trim :: "polygon \<Rightarrow> polygon \<Rightarrow> polygon" where
  "trim other cur = fold (trim_step other) [0..<length cur] cur"

text \<open>
  Steps (1) and (2) of \<open>union\<close>: the copy of the subject is trimmed against the copy of
  the clipper, then the copy of the clipper against the trimmed subject.
\<close>

definition union_trim :: "polygon \<Rightarrow> polygon \<Rightarrow> polygon \<times> polygon" where
  "union_trim subject clipper =
     (let this1 = trim (slice_all clipper) (slice_all subject);
          ipolygon = trim this1 (slice_all clipper)
      in (this1, ipolygon))"

section \<open>Clipping engine: \<open>intersect\<close>\<close>

text \<open>\<open>_in\<close>: the point is strictly on the inner side of the clip edge \<open>c1 - c2\<close>.\<close>

definition in_edge :: "vertex \<Rightarrow> vertex \<Rightarrow> vertex \<Rightarrow> bool" where
  "in_edge c1 c2 pt =
     ((fst c2 - fst c1) * (snd pt - snd c1) > (snd c2 - snd c1) * (fst pt - fst c1))"

text \<open>
  The inner \<open>_lineLineInter\<close> of \<open>_clip\<close>.  Its divisor is the cross product of the clip
  edge and the subject edge; the function is only called when the two end points of
  the subject edge are classified differently, and then the divisor is not zero
  (lemma \<open>clip_divisor_nonzero\<close>).
\<close>

definition clip_divisor :: "vertex \<Rightarrow> vertex \<Rightarrow> vertex \<Rightarrow> vertex \<Rightarrow> real" where
  "clip_divisor c1 c2 startPt endPt =
     (fst c1 - fst c2) * (snd startPt - snd endPt) - (snd c1 - snd c2) * (fst startPt - fst endPt)"

definition clip_inter :: "vertex \<Rightarrow> vertex \<Rightarrow> vertex \<Rightarrow> vertex \<Rightarrow> vertex" where
  "clip_inter c1 c2 startPt endPt =
     (let diffClip = (fst c1 - fst c2, snd c1 - snd c2);
          diffPt = (fst startPt - fst endPt, snd startPt - snd endPt);
          s = fst c1 * snd c2 - snd c1 * fst c2;
          t = fst startPt * snd endPt - snd startPt * fst endPt;
          den = 1 / clip_divisor c1 c2 startPt endPt
      in ((s * fst diffPt - t * fst diffClip) * den, (s * snd diffPt - t * snd diffClip) * den))"

text \<open>The inner loop: one pass of the current vertex list against one clip edge.\<close>

fun clip_pass :: "vertex \<Rightarrow> vertex \<Rightarrow> vertex \<Rightarrow> polygon \<Rightarrow> polygon" where
  "clip_pass c1 c2 startPt [] = []"
| "clip_pass c1 c2 startPt (endPt # rest) =
     (if in_edge c1 c2 endPt then
        (if \<not> in_edge c1 c2 startPt then [clip_inter c1 c2 startPt endPt] else []) @ [endPt]
      else if in_edge c1 c2 startPt then [clip_inter c1 c2 startPt endPt]
      else [])
     @ clip_pass c1 c2 endPt rest"

text \<open>
  The outer loop over the clipper's vertices.  On an empty list the start point is
  \<open>undefined\<close> and the inner loop does not run.
\<close>

fun clip_loop :: "vertex \<Rightarrow> polygon \<Rightarrow> polygon \<Rightarrow> polygon" where
  "clip_loop c1 [] xo_intersect = xo_intersect"
| "clip_loop c1 (c2 # rest) xo_intersect =
     clip_loop c2 rest
       (if xo_intersect = [] then [] else clip_pass c1 c2 (last xo_intersect) xo_intersect)"

definition clip :: "polygon \<Rightarrow> polygon \<Rightarrow> polygon" where
  "clip xi_clipped xi_clipper =
     (if xi_clipper = [] then xi_clipped
      else clip_loop (last xi_clipper) xi_clipper xi_clipped)"

definition intersect :: "polygon \<Rightarrow> polygon \<Rightarrow> polygon" where
  "intersect this xi_polygon = clip this xi_polygon"

section \<open>Clockwise sort: \<open>sortCW\<close>\<close>

text \<open>The rational approximation \<open>_atan2\<close> of the source.\<close>

definition atan2_approx :: "jsnum \<Rightarrow> jsnum \<Rightarrow> jsnum" where
  "atan2_approx xi_y xi_x =
     (let arg = xi_y / xi_x; arg2 = arg * arg; arg3 = arg2 * arg
      in Fin 1.570796326794897 * (arg3 + arg2 + Fin 0.640388203202208 * arg)
         / (arg3 + Fin 1.640388203202208 * (arg2 + arg) + Fin 1))"

text \<open>
  \<open>Array.prototype.sort\<close> with a comparison function is a primitive of the language:
  a stable sort in which \<open>a\<close> goes before \<open>b\<close> when the comparison is negative, and a NaN
  comparison counts as \<open>0\<close>.  It is modelled by stable insertion.
\<close>

fun insort_js :: "('a \<Rightarrow> 'a \<Rightarrow> jsnum) \<Rightarrow> 'a \<Rightarrow> 'a list \<Rightarrow> 'a list" where
  "insort_js cmp x [] = [x]"
| "insort_js cmp x (y # ys) =
     (if Fin 0 < cmp x y then y # insort_js cmp x ys else x # y # ys)"

definition sort_js :: "('a \<Rightarrow> 'a \<Rightarrow> jsnum) \<Rightarrow> 'a list \<Rightarrow> 'a list" where
  "sort_js cmp xs = foldr (insort_js cmp) xs []"

record angle_zipped =
  angle :: jsnum
  zx :: real
  zy :: real

definition sortCW :: "polygon \<Rightarrow> polygon" where
  "sortCW p =
     (let len = Fin (real (length p));
          Xmean = sum_js (getX p) / len;
          Ymean = sum_js (getY p) / len;
          angleZipped = map (\<lambda>v. \<lparr> angle = atan2_approx (Fin (snd v) - Ymean) (Fin (fst v) - Xmean),
                                    zx = fst v, zy = snd v \<rparr>) p;
          sorted = sort_js (\<lambda>a b. angle a - angle b) angleZipped
      in map (\<lambda>t. (zx t, zy t)) sorted)"

section \<open>\<open>union\<close>\<close>

text \<open>\<open>union\<close> of the source; the name \<open>union\<close> is taken in HOL.\<close>

definition union_poly :: "polygon \<Rightarrow> polygon \<Rightarrow> polygon" where
  "union_poly this xi_polygon =
     (let (this1, ipolygon) = union_trim this xi_polygon;
          intersect0 = intersect this1 ipolygon;
          intersect1 = insertPolygon intersect0 (size_poly this1) this1;
          intersect2 = insertPolygon intersect1 (size_poly ipolygon) ipolygon
      in sortCW intersect2)"

section \<open>Convex hull\<close>

text \<open>\<open>_cross\<close>: the sign test of the cross product of \<open>1 \<rightarrow> 2\<close> and \<open>1 \<rightarrow> 3\<close>.\<close>

definition cross_neg :: "vertex \<Rightarrow> vertex \<Rightarrow> vertex \<Rightarrow> bool" where
  "cross_neg v1 v2 v3 =
     ((fst v2 - fst v1) * (snd v3 - snd v1) - (snd v2 - snd v1) * (fst v3 - fst v1) < 0)"

text \<open>
  \<open>_leftBottom\<close> is a plain inner function, called as \<open>_leftBottom(this._X, this._Y)\<close>.
  Inside it \<open>this\<close> is not the polygon: the script is not in strict mode, so \<open>this\<close> is
  the global object, and \<open>this.accuracy\<close> is whatever the global object holds under
  that name.  That value is the parameter \<open>acc\<close>: \<open>None\<close> when the global object has no
  \<open>accuracy\<close> (the value is \<open>undefined\<close>, and \<open>\<dots> < undefined\<close> is false).
\<close>

definition below_accuracy :: "real \<Rightarrow> real option \<Rightarrow> bool" where
  "below_accuracy d acc = (case acc of None \<Rightarrow> False | Some a \<Rightarrow> d < a)"

definition leftBottom_step :: "real option \<Rightarrow> polygon \<Rightarrow> nat \<Rightarrow> nat \<Rightarrow> nat" where
  "leftBottom_step acc p i xo_index =
     (let xi = fst (p ! i); yi = snd (p ! i);
          x0 = fst (p ! xo_index); y0 = snd (p ! xo_index)
      in if xi < x0 \<or> (below_accuracy \<bar>xi - x0\<bar> acc \<and> yi < y0) then i else xo_index)"

definition leftBottom :: "real option \<Rightarrow> polygon \<Rightarrow> nat" where
  "leftBottom acc p = fold (leftBottom_step acc p) [1..<length p] 0"

text \<open>The inner \<open>for\<close> loop of \<open>convexHull\<close>: the next hull vertex after \<open>_hull\<close> (here \<open>hull_i\<close>).\<close>

definition next_end :: "polygon \<Rightarrow> nat \<Rightarrow> nat" where
  "next_end p hull_i =
     fold (\<lambda>i indexEnd.
             if hull_i = indexEnd \<or> cross_neg (p ! hull_i) (p ! indexEnd) (p ! i) then i
             else indexEnd)
          [1..<length p] 0"

text \<open>
  The \<open>do \<dots> while\<close> loop.  Nothing in the source bounds the number of rounds, so the
  loop is a partial function: \<open>None\<close> stands for a run that never returns.
\<close>

partial_function (option) hull_loop :: "polygon \<Rightarrow> nat \<Rightarrow> nat \<Rightarrow> polygon \<Rightarrow> polygon option" where
  "hull_loop p indexStart hull_i xo_hull =
     (let xo_hull1 = xo_hull @ [p ! hull_i];
          indexEnd = next_end p hull_i
      in if indexEnd \<noteq> indexStart then hull_loop p indexStart indexEnd xo_hull1
         else Some xo_hull1)"

declare hull_loop.simps [code]

text \<open>
  \<open>convexHull\<close>.  On a polygon without vertices the source returns the two arrays
  \<open>[undefined]\<close>; this is the result \<open>UndefinedHull\<close>.
\<close>

datatype hull_result = Hull polygon | UndefinedHull

definition convexHull :: "real option \<Rightarrow> polygon \<Rightarrow> hull_result option" where
  "convexHull acc p =
     (if p = [] then Some UndefinedHull
      else map_option Hull (hull_loop p (leftBottom acc p) (leftBottom acc p) []))"

section \<open>Segment against polygon: \<open>lineIntersect\<close>\<close>

text \<open>
  The inner \<open>_lineLineInter\<close> of \<open>lineIntersect\<close>, on \<open>jsnum\<close>: the source takes the
  reciprocal of the determinant without testing it.  The determinant is written as the
  source computes it (\<open>_s2x\<close> is \<open>xi_x2_l2 - xi_x1_l1\<close> there).
\<close>

record line_args =
  x1_l1 :: jsnum
  y1_l1 :: jsnum
  x2_l1 :: jsnum
  y2_l1 :: jsnum
  x1_l2 :: jsnum
  y1_l2 :: jsnum
  x2_l2 :: jsnum
  y2_l2 :: jsnum

definition s1x :: "line_args \<Rightarrow> jsnum" where
  "s1x a = x2_l1 a - x1_l1 a"

definition s1y :: "line_args \<Rightarrow> jsnum" where
  "s1y a = y2_l1 a - y1_l1 a"

definition s2x :: "line_args \<Rightarrow> jsnum" where
  "s2x a = x2_l2 a - x1_l1 a"

definition s2y :: "line_args \<Rightarrow> jsnum" where
  "s2y a = y2_l2 a - y1_l2 a"

definition determinant :: "line_args \<Rightarrow> jsnum" where
  "determinant a = - s2x a * s1y a + s1x a * s2y a"

definition den :: "line_args \<Rightarrow> jsnum" where
  "den a = Fin 1 / determinant a"

definition param_s :: "line_args \<Rightarrow> jsnum" where
  "param_s a =
     (- s1y a * (x1_l1 a - x1_l2 a) + s1x a * (y1_l1 a - y1_l2 a)) * den a"

definition param_t :: "line_args \<Rightarrow> jsnum" where
  "param_t a =
     (s2x a * (y1_l1 a - y1_l2 a) - s2y a * (x1_l1 a - x1_l2 a)) * den a"

text \<open>
  Not in the source: the determinant of the directions of two segments, the
  \<open>2\<times>2\<close> parametric determinant of the specification.  It is zero exactly when the
  segment from \<open>(x1, y1)\<close> to \<open>(x2, y2)\<close> and the edge from \<open>v\<close> to \<open>w\<close> are parallel or
  collinear.
\<close>

definition direction_determinant ::
  "real \<Rightarrow> real \<Rightarrow> real \<Rightarrow> real \<Rightarrow> vertex \<Rightarrow> vertex \<Rightarrow> real" where
  "direction_determinant x1 y1 x2 y2 v w =
     (x2 - x1) * (snd w - snd v) - (y2 - y1) * (fst w - fst v)"

text \<open>The result \<open>{FLAG: false, X: [], Y: []}\<close> is \<open>None\<close>.\<close>

definition lineLineInter :: "line_args \<Rightarrow> (jsnum \<times> jsnum) option" where
  "lineLineInter a =
     (if Fin 0 \<le> param_s a \<and> param_s a \<le> Fin 1 \<and> Fin 0 \<le> param_t a \<and> param_t a \<le> Fin 1
      then Some (x1_l1 a + param_t a * s1x a, y1_l1 a + param_t a * s1y a)
      else None)"

definition edge_args :: "real \<Rightarrow> real \<Rightarrow> real \<Rightarrow> real \<Rightarrow> vertex \<Rightarrow> vertex \<Rightarrow> line_args" where
  "edge_args xi_x1 xi_y1 xi_x2 xi_y2 v w =
     \<lparr> x1_l1 = Fin xi_x1, y1_l1 = Fin xi_y1, x2_l1 = Fin xi_x2, y2_l1 = Fin xi_y2,
       x1_l2 = Fin (fst v), y1_l2 = Fin (snd v), x2_l2 = Fin (fst w), y2_l2 = Fin (snd w) \<rparr>"

text \<open>
  The edges visited by \<open>lineIntersect\<close>: the consecutive pairs, then the closing edge
  from the last vertex to the first.  (On a polygon without vertices the closing call
  reads \<open>undefined\<close> coordinates and reports no intersection.)
\<close>

definition edges :: "polygon \<Rightarrow> (vertex \<times> vertex) list" where
  "edges p = (if p = [] then [] else zip (butlast p) (tl p) @ [(last p, hd p)])"

record intersection =
  FLAG :: bool
  Xs :: "jsnum list"
  Ys :: "jsnum list"

definition edge_contribution ::
  "real \<Rightarrow> real \<Rightarrow> real \<Rightarrow> real \<Rightarrow> vertex \<times> vertex \<Rightarrow> (jsnum \<times> jsnum) list" where
  "edge_contribution xi_x1 xi_y1 xi_x2 xi_y2 e =
     (case lineLineInter (edge_args xi_x1 xi_y1 xi_x2 xi_y2 (fst e) (snd e)) of
        None \<Rightarrow> [] | Some pt \<Rightarrow> [pt])"

definition lineIntersect :: "polygon \<Rightarrow> real \<Rightarrow> real \<Rightarrow> real \<Rightarrow> real \<Rightarrow> intersection" where
  "lineIntersect p xi_x1 xi_y1 xi_x2 xi_y2 =
     (let pts = concat (map (edge_contribution xi_x1 xi_y1 xi_x2 xi_y2) (edges p))
      in \<lparr> FLAG = (pts \<noteq> []), Xs = map fst pts, Ys = map snd pts \<rparr>)"

section \<open>Rounding to a double\<close>

text \<open>
  JavaScript rounds the exact result of every arithmetic operation to the nearest double
  (IEEE-754 binary64: 53 significant bits, binary exponents from \<open>-1022\<close> to \<open>1023\<close>,
  ties to the even significand).

  \<open>halvings x\<close> counts the halvings that bring \<open>x \<ge> 1\<close> below \<open>2\<close> and \<open>doublings x\<close>
  the doublings that bring a positive \<open>x < 1\<close> up to \<open>1\<close>: \<open>exponent x\<close> is the binary
  exponent of \<open>x\<close>, the integer \<open>e\<close> with \<open>2\<^sup>e \<le> \<bar>x\<bar> < 2\<^sup>e\<^sup>+\<^sup>1\<close>.
\<close>

definition pow2 :: "int \<Rightarrow> real" where
  "pow2 e = (if 0 \<le> e then 2 ^ nat e else 1 / 2 ^ nat (- e))"

function halvings :: "real \<Rightarrow> nat" where
  "halvings x = (if x < 2 then 0 else Suc (halvings (x / 2)))"
  by pat_completeness auto
termination
proof (relation "measure (\<lambda>x. nat \<lceil>x\<rceil>)")
  show "wf (measure (\<lambda>x :: real. nat \<lceil>x\<rceil>))" by simp
next
  fix x :: real
  assume "\<not> x < 2"
  then have "x / 2 \<le> x - 1" by simp
  then have "\<lceil>x / 2\<rceil> \<le> \<lceil>x - 1\<rceil>" by (rule ceiling_mono)
  moreover have "0 < \<lceil>x\<rceil>" using \<open>\<not> x < 2\<close> by (simp add: ceiling_less_iff not_less)
  ultimately show "(x / 2, x) \<in> measure (\<lambda>x. nat \<lceil>x\<rceil>)" by simp
qed

declare halvings.simps [simp del]

function doublings :: "real \<Rightarrow> nat" where
  "doublings x = (if x \<le> 0 \<or> 1 \<le> x then 0 else Suc (doublings (2 * x)))"
  by pat_completeness auto
termination
proof (relation "measure (\<lambda>x. nat \<lceil>1 / x\<rceil>)")
  show "wf (measure (\<lambda>x :: real. nat \<lceil>1 / x\<rceil>))" by simp
next
  fix x :: real
  assume a: "\<not> (x \<le> 0 \<or> 1 \<le> x)"
  then have x: "0 < x" "x < 1" by simp_all
  then have y: "1 < 1 / x" by simp
  from x have c: "1 < \<lceil>1 / x\<rceil>" by (simp add: less_ceiling_iff)
  have "\<lceil>1 / (2 * x)\<rceil> < \<lceil>1 / x\<rceil>"
  proof (cases "2 \<le> 1 / x")
    case True
    then have "1 / (2 * x) \<le> 1 / x - 1" by (simp add: field_simps)
    then have "\<lceil>1 / (2 * x)\<rceil> \<le> \<lceil>1 / x - 1\<rceil>" by (rule ceiling_mono)
    then show ?thesis by simp
  next
    case False
    with x have "1 / (2 * x) \<le> 1" by (simp add: field_simps)
    then have "\<lceil>1 / (2 * x)\<rceil> \<le> 1" by (simp add: ceiling_le_iff)
    with c show ?thesis by linarith
  qed
  with c have "nat \<lceil>1 / (2 * x)\<rceil> < nat \<lceil>1 / x\<rceil>" by linarith
  then show "(2 * x, x) \<in> measure (\<lambda>x. nat \<lceil>1 / x\<rceil>)" by (simp only: in_measure)
qed

declare doublings.simps [simp del]

definition exponent :: "real \<Rightarrow> int" where
  "exponent x = (if 1 \<le> \<bar>x\<bar> then int (halvings \<bar>x\<bar>) else - int (doublings \<bar>x\<bar>))"

text \<open>The nearest integer, a tie going to the even one.\<close>

definition round_even :: "real \<Rightarrow> int" where
  "round_even x =
     (if x - of_int \<lfloor>x\<rfloor> < 1 / 2 then \<lfloor>x\<rfloor>
      else if 1 / 2 < x - of_int \<lfloor>x\<rfloor> then \<lfloor>x\<rfloor> + 1
      else if even \<lfloor>x\<rfloor> then \<lfloor>x\<rfloor> else \<lfloor>x\<rfloor> + 1)"

text \<open>
  \<open>quantum x\<close> is the distance between the doubles around \<open>x\<close>; below \<open>2\<^sup>-\<^sup>1\<^sup>0\<^sup>2\<^sup>2\<close>
  (subnormal numbers) it no longer shrinks.  \<open>round_double x\<close> is the outcome of an
  operation whose exact result is \<open>x\<close>: the nearest multiple of the quantum; an infinity
  when that is \<open>2\<^sup>1\<^sup>0\<^sup>2\<^sup>4\<close> or more in magnitude; a zero of the sign of \<open>x\<close> when a nonzero
  \<open>x\<close> is rounded to zero.
\<close>

definition quantum :: "real \<Rightarrow> real" where
  "quantum x = pow2 (max (exponent x) (- 1022) - 52)"

definition round_double :: "real \<Rightarrow> jsnum" where
  "round_double x =
     (if x = 0 then Fin 0
      else if 2 ^ 1024 \<le> \<bar>of_int (round_even (x / quantum x)) * quantum x\<bar> then signed_inf (x < 0)
      else if round_even (x / quantum x) = 0 then signed_zero (x < 0)
      else Fin (of_int (round_even (x / quantum x)) * quantum x))"

text \<open>
  The arithmetic in which \<open>simplify\<close> is read.  \<open>Double\<close> is the arithmetic of the
  program: \<open>fl Double\<close> rounds the finite result of an operation to a double and leaves
  \<open>-0\<close>, the infinities and NaN as they are.  \<open>Exact\<close> rounds nothing; it serves to state
  what \<open>simplify\<close> computes when no operation rounds.
\<close>

datatype arith = Exact | Double

fun fl :: "arith \<Rightarrow> jsnum \<Rightarrow> jsnum" where
  "fl Double (Fin r) = round_double r"
| "fl _ v = v"

section \<open>Simplifier: \<open>simplify\<close>\<close>

text \<open>
  A vertex as the two-element array \<open>[x, y]\<close> of numbers that \<open>simplify\<close> builds from
  \<open>_X\<close> and \<open>_Y\<close>, and the four vector helpers.  Every operator of the source is one
  operation followed by one rounding.
\<close>

definition coords :: "vertex \<Rightarrow> jsnum \<times> jsnum" where
  "coords v = (Fin (fst v), Fin (snd v))"

definition diff2vec :: "arith \<Rightarrow> jsnum \<times> jsnum \<Rightarrow> jsnum \<times> jsnum \<Rightarrow> jsnum \<times> jsnum" where
  "diff2vec m a b = (fl m (fst a - fst b), fl m (snd a - snd b))"

definition dot2vec :: "arith \<Rightarrow> jsnum \<times> jsnum \<Rightarrow> jsnum \<times> jsnum \<Rightarrow> jsnum" where
  "dot2vec m a b = fl m (fl m (fst a * fst b) + fl m (snd a * snd b))"

definition mag2vec :: "arith \<Rightarrow> jsnum \<times> jsnum \<Rightarrow> jsnum" where
  "mag2vec m a = fl m (fl m (fst a * fst a) + fl m (snd a * snd a))"

definition magDiff2vec :: "arith \<Rightarrow> jsnum \<times> jsnum \<Rightarrow> jsnum \<times> jsnum \<Rightarrow> jsnum" where
  "magDiff2vec m a b = mag2vec m (diff2vec m a b)"

text \<open>
  The body of the \<open>for\<close> loop of \<open>_reduce\<close>: the squared distance \<open>_dist\<close> of a vertex
  from the segment \<open>seg0 - seg1\<close>.  The quotient \<open>_dot / _length2\<close> is taken when neither
  \<open>_dot <= 0\<close> nor \<open>_length2 <= _dot\<close> holds.
\<close>

definition seg_dist :: "arith \<Rightarrow> vertex \<Rightarrow> vertex \<Rightarrow> vertex \<Rightarrow> jsnum" where
  "seg_dist m seg0 seg1 v =
     (let direction = diff2vec m (coords seg1) (coords seg0);
          length2 = mag2vec m direction;
          w = diff2vec m (coords v) (coords seg0);
          dot = dot2vec m w direction
      in if dot \<le> Fin 0 then magDiff2vec m (coords v) (coords seg0)
         else if length2 \<le> dot then magDiff2vec m (coords v) (coords seg1)
         else (let proj = fl m (dot / length2);
                   perpBase = (fl m (Fin (fst seg0) + fl m (proj * fst direction)),
                               fl m (Fin (snd seg0) + fl m (proj * snd direction)))
               in magDiff2vec m (coords v) perpBase))"

text \<open>
  The scan for the farthest vertex, with state \<open>(_iMax, _maxDistSqr)\<close>: a vertex
  replaces the record unless \<open>_dist <= _maxDistSqr\<close>.
\<close>

definition scan_step ::
  "arith \<Rightarrow> polygon \<Rightarrow> nat \<Rightarrow> nat \<Rightarrow> nat \<Rightarrow> nat \<times> jsnum \<Rightarrow> nat \<times> jsnum" where
  "scan_step m vs xi_start xi_end i st =
     (if seg_dist m (vs ! xi_start) (vs ! xi_end) (vs ! i) \<le> snd st then st
      else (i, seg_dist m (vs ! xi_start) (vs ! xi_end) (vs ! i)))"

definition max_scan :: "arith \<Rightarrow> polygon \<Rightarrow> nat \<Rightarrow> nat \<Rightarrow> nat \<times> jsnum" where
  "max_scan m vs xi_start xi_end =
     fold (scan_step m vs xi_start xi_end) [Suc xi_start..<xi_end] (xi_start, Fin 0)"

text \<open>
  \<open>_reduce\<close>: the array \<open>xi_key\<close> only ever receives the mark \<open>1\<close>, so it is the set
  of marked indices, passed in and returned.  The recursion ends because a distance above
  the squared tolerance, which is not negative, has moved \<open>_iMax\<close> strictly between
  \<open>xi_start\<close> and \<open>xi_end\<close>.
\<close>

function reduce :: "arith \<Rightarrow> real \<Rightarrow> polygon \<Rightarrow> nat \<Rightarrow> nat \<Rightarrow> nat set \<Rightarrow> nat set" where
  "reduce m xi_tolerance vs xi_start xi_end key =
     (if xi_end \<le> xi_start + 1 then key
      else if fl m (Fin xi_tolerance * Fin xi_tolerance) < snd (max_scan m vs xi_start xi_end) then
        reduce m xi_tolerance vs (fst (max_scan m vs xi_start xi_end)) xi_end
          (reduce m xi_tolerance vs xi_start (fst (max_scan m vs xi_start xi_end))
             (insert (fst (max_scan m vs xi_start xi_end)) key))
      else key)"
  by pat_completeness auto
termination
proof (relation "measure (\<lambda>(m, tol, vs, s, e, key). e - s)")
  show "wf (measure (\<lambda>(m :: arith, tol :: real, vs :: polygon, s :: nat, e :: nat,
      key :: nat set). e - s))"
    by simp
next
  have bounds: "fold (scan_step m vs s e) js st = st \<or> fst (fold (scan_step m vs s e) js st) \<in> set js"
    for m vs s e js st
  proof (induction js arbitrary: st)
    case Nil
    show ?case by simp
  next
    case (Cons i js)
    have step: "scan_step m vs s e i st = st \<or> fst (scan_step m vs s e i st) = i"
      by (simp add: scan_step_def)
    from Cons.IH [of "scan_step m vs s e i st"] step show ?case
      by auto
  qed
  have product: "Fin t * Fin t = Fin (t * t)" for t
    by (simp add: times_jsnum_def jmul_def signed_zero_def)
  have square: "\<not> fl m (Fin t * Fin t) < Fin 0" for m t
  proof (cases m)
    case Exact
    then show ?thesis
      by (simp add: product less_jsnum_def jlt_def)
  next
    case Double
    have q: "0 < quantum x" for x
      by (simp add: quantum_def pow2_def)
    have r: "0 \<le> round_even x" if "0 \<le> x" for x
      using that by (simp add: round_even_def)
    have "\<not> round_double x < Fin 0" if "0 \<le> x" for x
    proof -
      from that q [of x] have "0 \<le> x / quantum x" by simp
      from r [OF this] q [of x]
      have "0 \<le> real_of_int (round_even (x / quantum x)) * quantum x" by simp
      with that show ?thesis
        by (simp add: round_double_def signed_zero_def signed_inf_def less_jsnum_def jlt_def
            not_less)
    qed
    from this [of "t * t"] Double show ?thesis
      by (simp add: product)
  qed
  have inner: "Suc s \<le> fst (max_scan m vs s e) \<and> fst (max_scan m vs s e) < e"
    if "fl m (Fin t * Fin t) < snd (max_scan m vs s e)" for m t vs s e
  proof -
    from that square [of m t] have "fold (scan_step m vs s e) [Suc s..<e] (s, Fin 0) \<noteq> (s, Fin 0)"
      by (auto simp: max_scan_def)
    with bounds [of m vs s e "[Suc s..<e]" "(s, Fin 0)"]
    have "fst (fold (scan_step m vs s e) [Suc s..<e] (s, Fin 0)) \<in> set [Suc s..<e]"
      by blast
    then show ?thesis by (simp add: max_scan_def)
  qed
  fix m :: arith and xi_tolerance :: real and vs :: polygon and xi_start xi_end :: nat
    and key :: "nat set"
  assume "\<not> xi_end \<le> xi_start + 1"
    and big: "fl m (Fin xi_tolerance * Fin xi_tolerance) < snd (max_scan m vs xi_start xi_end)"
  from inner [OF big]
  show "((m, xi_tolerance, vs, xi_start, fst (max_scan m vs xi_start xi_end),
          insert (fst (max_scan m vs xi_start xi_end)) key),
         m, xi_tolerance, vs, xi_start, xi_end, key)
        \<in> measure (\<lambda>(m, tol, vs, s, e, key). e - s)"
    by (simp, arith)
  from inner [OF big]
  show "((m, xi_tolerance, vs, fst (max_scan m vs xi_start xi_end), xi_end,
          reduce m xi_tolerance vs xi_start (fst (max_scan m vs xi_start xi_end))
            (insert (fst (max_scan m vs xi_start xi_end)) key)),
         m, xi_tolerance, vs, xi_start, xi_end, key)
        \<in> measure (\<lambda>(m, tol, vs, s, e, key). e - s)"
    by (simp, arith)
qed

declare reduce.simps [simp del]

text \<open>
  The radial pre-filter of \<open>simplify\<close>, with state \<open>(_vertices, _j)\<close>: a vertex closer
  than the tolerance to the last kept vertex is skipped.  After the loop the last
  vertex is put back when it was skipped.
\<close>

definition radial_step ::
  "arith \<Rightarrow> jsnum \<Rightarrow> polygon \<Rightarrow> nat \<Rightarrow> polygon \<times> nat \<Rightarrow> polygon \<times> nat" where
  "radial_step m tol2 thisVertices i st =
     (if magDiff2vec m (coords (thisVertices ! i)) (coords (thisVertices ! snd st)) < tol2 then st
      else (fst st @ [thisVertices ! i], i))"

definition radial_filter :: "arith \<Rightarrow> jsnum \<Rightarrow> polygon \<Rightarrow> polygon" where
  "radial_filter m tol2 thisVertices =
     (let st = fold (radial_step m tol2 thisVertices) [1..<length thisVertices]
                 ([thisVertices ! 0], 0)
      in if snd st + 1 < length thisVertices
         then fst st @ [thisVertices ! (length thisVertices - 1)]
         else fst st)"

text \<open>
  \<open>simplify\<close>.  The tolerance is a number, which \<open>xi_tolerance || 0\<close> leaves as it is.
  On a polygon without vertices \<open>_vertices[0]\<close> is \<open>undefined\<close> and the output loop reads
  \<open>_vertices[0][0]\<close>: a TypeError is thrown.  Otherwise the marked vertices are copied
  back in index order.
\<close>

datatype js_error = TypeError

definition simplify :: "arith \<Rightarrow> real \<Rightarrow> polygon \<Rightarrow> js_error + polygon" where
  "simplify m xi_tolerance p =
     (if p = [] then Inl TypeError
      else (let tol = xi_tolerance;
                tol2 = fl m (Fin tol * Fin tol);
                vertices = radial_filter m tol2 p;
                k = length vertices;
                key = reduce m tol vertices 0 (k - 1) {0, k - 1}
            in Inr (nths vertices key)))"

text \<open>\<open>simplify\<close> called twice on the same polygon object; a throw ends the run.\<close>

definition simplify_twice :: "arith \<Rightarrow> real \<Rightarrow> polygon \<Rightarrow> js_error + polygon" where
  "simplify_twice m t p = (case simplify m t p of Inl e \<Rightarrow> Inl e | Inr q \<Rightarrow> simplify m t q)"

subsection \<open>The simplifier over the real numbers\<close>

text \<open>
  The same functions with the operations of \<^typ>\<open>real\<close> and no rounding.  They are not
  another reading of the source: lemma \<open>simplify_Exact\<close> shows that they are
  \<open>simplify Exact\<close>, and the proofs about exact arithmetic are done on them.
\<close>

definition diff2vec_real :: "vertex \<Rightarrow> vertex \<Rightarrow> vertex" where
  "diff2vec_real a b = (fst a - fst b, snd a - snd b)"

definition dot2vec_real :: "vertex \<Rightarrow> vertex \<Rightarrow> real" where
  "dot2vec_real a b = fst a * fst b + snd a * snd b"

definition mag2vec_real :: "vertex \<Rightarrow> real" where
  "mag2vec_real a = fst a * fst a + snd a * snd a"

definition magDiff2vec_real :: "vertex \<Rightarrow> vertex \<Rightarrow> real" where
  "magDiff2vec_real a b = mag2vec_real (diff2vec_real a b)"

definition seg_dist_real :: "vertex \<Rightarrow> vertex \<Rightarrow> vertex \<Rightarrow> real" where
  "seg_dist_real seg0 seg1 v =
     (let direction = diff2vec_real seg1 seg0;
          length2 = mag2vec_real direction;
          w = diff2vec_real v seg0;
          dot = dot2vec_real w direction
      in if dot \<le> 0 then magDiff2vec_real v seg0
         else if length2 \<le> dot then magDiff2vec_real v seg1
         else (let proj = dot / length2;
                   perpBase = (fst seg0 + proj * fst direction, snd seg0 + proj * snd direction)
               in magDiff2vec_real v perpBase))"

definition scan_step_real :: "polygon \<Rightarrow> nat \<Rightarrow> nat \<Rightarrow> nat \<Rightarrow> nat \<times> real \<Rightarrow> nat \<times> real" where
  "scan_step_real vs xi_start xi_end i st =
     (if seg_dist_real (vs ! xi_start) (vs ! xi_end) (vs ! i) \<le> snd st then st
      else (i, seg_dist_real (vs ! xi_start) (vs ! xi_end) (vs ! i)))"

definition max_scan_real :: "polygon \<Rightarrow> nat \<Rightarrow> nat \<Rightarrow> nat \<times> real" where
  "max_scan_real vs xi_start xi_end =
     fold (scan_step_real vs xi_start xi_end) [Suc xi_start..<xi_end] (xi_start, 0)"

function reduce_real :: "real \<Rightarrow> polygon \<Rightarrow> nat \<Rightarrow> nat \<Rightarrow> nat set \<Rightarrow> nat set" where
  "reduce_real tol vs xi_start xi_end key =
     (if xi_end \<le> xi_start + 1 then key
      else if snd (max_scan_real vs xi_start xi_end) > tol * tol then
        reduce_real tol vs (fst (max_scan_real vs xi_start xi_end)) xi_end
          (reduce_real tol vs xi_start (fst (max_scan_real vs xi_start xi_end))
             (insert (fst (max_scan_real vs xi_start xi_end)) key))
      else key)"
  by pat_completeness auto
termination
proof (relation "measure (\<lambda>(tol, vs, s, e, key). e - s)")
  show "wf (measure (\<lambda>(tol :: real, vs :: polygon, s :: nat, e :: nat, key :: nat set). e - s))"
    by simp
next
  have bounds: "fold (scan_step_real vs s e) js st = st \<or>
      (fst (fold (scan_step_real vs s e) js st) \<in> set js \<and> snd st < snd (fold (scan_step_real vs s e) js st))"
    for vs s e js st
  proof (induction js arbitrary: st)
    case Nil
    show ?case by simp
  next
    case (Cons i js)
    have step: "scan_step_real vs s e i st = st \<or>
        (fst (scan_step_real vs s e i st) = i \<and> snd st < snd (scan_step_real vs s e i st))"
      by (auto simp: scan_step_real_def)
    from Cons.IH [of "scan_step_real vs s e i st"] step show ?case
    proof (elim disjE conjE)
      assume "fold (scan_step_real vs s e) js (scan_step_real vs s e i st) = scan_step_real vs s e i st"
        and "scan_step_real vs s e i st = st"
      then show ?thesis by simp
    next
      assume "fold (scan_step_real vs s e) js (scan_step_real vs s e i st) = scan_step_real vs s e i st"
        and "fst (scan_step_real vs s e i st) = i" and "snd st < snd (scan_step_real vs s e i st)"
      then show ?thesis by simp
    next
      assume "scan_step_real vs s e i st = st"
        and "fst (fold (scan_step_real vs s e) js (scan_step_real vs s e i st)) \<in> set js"
        and "snd (scan_step_real vs s e i st) < snd (fold (scan_step_real vs s e) js (scan_step_real vs s e i st))"
      then show ?thesis by simp
    next
      assume "fst (fold (scan_step_real vs s e) js (scan_step_real vs s e i st)) \<in> set js"
        and a: "snd (scan_step_real vs s e i st) < snd (fold (scan_step_real vs s e) js (scan_step_real vs s e i st))"
        and "fst (scan_step_real vs s e i st) = i" and b: "snd st < snd (scan_step_real vs s e i st)"
      moreover from a b have "snd st < snd (fold (scan_step_real vs s e) js (scan_step_real vs s e i st))"
        by (rule less_trans [rotated])
      ultimately show ?thesis by simp
    qed
  qed
  have inner: "Suc s \<le> fst (max_scan_real vs s e) \<and> fst (max_scan_real vs s e) < e"
    if "tol * tol < snd (max_scan_real vs s e)" for tol :: real and vs s e
  proof -
    have "0 \<le> tol * tol" by simp
    with that have "fold (scan_step_real vs s e) [Suc s..<e] (s, 0) \<noteq> (s, 0)"
      by (auto simp: max_scan_real_def)
    with bounds [of vs s e "[Suc s..<e]" "(s, 0)"]
    have "fst (fold (scan_step_real vs s e) [Suc s..<e] (s, 0)) \<in> set [Suc s..<e]"
      by blast
    then show ?thesis by (simp add: max_scan_real_def)
  qed
  fix tol :: real and vs :: polygon and xi_start xi_end :: nat and key :: "nat set"
  assume "\<not> xi_end \<le> xi_start + 1" and big: "tol * tol < snd (max_scan_real vs xi_start xi_end)"
  from inner [OF big]
  show "((tol, vs, xi_start, fst (max_scan_real vs xi_start xi_end),
          insert (fst (max_scan_real vs xi_start xi_end)) key),
         tol, vs, xi_start, xi_end, key)
        \<in> measure (\<lambda>(tol, vs, s, e, key). e - s)"
    by (simp, arith)
  from inner [OF big]
  show "((tol, vs, fst (max_scan_real vs xi_start xi_end), xi_end,
          reduce_real tol vs xi_start (fst (max_scan_real vs xi_start xi_end))
            (insert (fst (max_scan_real vs xi_start xi_end)) key)),
         tol, vs, xi_start, xi_end, key)
        \<in> measure (\<lambda>(tol, vs, s, e, key). e - s)"
    by (simp, arith)
qed

declare reduce_real.simps [simp del]

definition radial_step_real :: "real \<Rightarrow> polygon \<Rightarrow> nat \<Rightarrow> polygon \<times> nat \<Rightarrow> polygon \<times> nat" where
  "radial_step_real tol2 thisVertices i st =
     (if magDiff2vec_real (thisVertices ! i) (thisVertices ! snd st) < tol2 then st
      else (fst st @ [thisVertices ! i], i))"

definition radial_filter_real :: "real \<Rightarrow> polygon \<Rightarrow> polygon" where
  "radial_filter_real tol2 thisVertices =
     (let st = fold (radial_step_real tol2 thisVertices) [1..<length thisVertices]
                 ([thisVertices ! 0], 0)
      in if snd st + 1 < length thisVertices
         then fst st @ [thisVertices ! (length thisVertices - 1)]
         else fst st)"

definition simplify_real :: "real \<Rightarrow> polygon \<Rightarrow> js_error + polygon" where
  "simplify_real xi_tolerance p =
     (if p = [] then Inl TypeError
      else (let tol = xi_tolerance;
                tol2 = tol * tol;
                vertices = radial_filter_real tol2 p;
                k = length vertices;
                key = reduce_real tol vertices 0 (k - 1) {0, k - 1}
            in Inr (nths vertices key)))"

definition simplify_twice_real :: "real \<Rightarrow> polygon \<Rightarrow> js_error + polygon" where
  "simplify_twice_real t p = (case simplify_real t p of Inl e \<Rightarrow> Inl e | Inr q \<Rightarrow> simplify_real t q)"

text \<open>
  An auxiliary function, not in the source: the chain that \<open>_reduce\<close> keeps in exact
  arithmetic, as a function of the sub-chain alone (first vertex, inner vertices, last
  vertex).  It serves the proof that \<open>simplify\<close> is idempotent in exact arithmetic; lemma
  \<open>reduce_kept_chain\<close> relates it to \<open>reduce_real\<close>.  The two bounds on the index
  always hold when the distance is above the tolerance (lemma \<open>max_scan_bounds\<close>).
\<close>

function kept_chain :: "real \<Rightarrow> polygon \<Rightarrow> polygon" where
  "kept_chain t xs =
     (if length xs \<le> 2 then xs
      else if t * t < snd (max_scan_real xs 0 (length xs - 1)) \<and>
              0 < fst (max_scan_real xs 0 (length xs - 1)) \<and>
              fst (max_scan_real xs 0 (length xs - 1)) < length xs - 1
      then kept_chain t (take (Suc (fst (max_scan_real xs 0 (length xs - 1)))) xs)
           @ tl (kept_chain t (drop (fst (max_scan_real xs 0 (length xs - 1))) xs))
      else [hd xs, last xs])"
  by pat_completeness auto
termination
  by (relation "measure (\<lambda>(t, xs). length xs)") auto

declare kept_chain.simps [simp del]

section \<open>Radial fitter and linear solver\<close>

fun jatan :: "jsnum \<Rightarrow> jsnum" where
  "jatan (Fin r) = Fin (arctan r)"
| "jatan NegZero = NegZero"
| "jatan PInf = Fin (pi / 2)"
| "jatan NInf = Fin (- (pi / 2))"
| "jatan NaN = NaN"

text \<open>\<open>Math.max\<close> and \<open>Math.min\<close> of two numbers: NaN wins, and \<open>-0\<close> is below \<open>+0\<close>.\<close>

definition jmax :: "jsnum \<Rightarrow> jsnum \<Rightarrow> jsnum" where
  "jmax a b =
     (if is_nan a \<or> is_nan b then NaN
      else if a < b then b
      else if b < a then a
      else if is_zero a \<and> is_zero b then signed_zero (sgnbit a \<and> sgnbit b)
      else a)"

definition jmin :: "jsnum \<Rightarrow> jsnum \<Rightarrow> jsnum" where
  "jmin a b =
     (if is_nan a \<or> is_nan b then NaN
      else if a < b then a
      else if b < a then b
      else if is_zero a \<and> is_zero b then signed_zero (sgnbit a \<or> sgnbit b)
      else a)"

text \<open>\<open>_concat\<close>: the right-hand side becomes the last column.\<close>

definition concat_col :: "jsnum list list \<Rightarrow> jsnum list \<Rightarrow> jsnum list list" where
  "concat_col xi_matrix xi_array = map (\<lambda>(row, b). row @ [b]) (zip xi_matrix xi_array)"

text \<open>
  The pivot search of \<open>_gaussElimination\<close>, with state \<open>(_pivot, _j)\<close>.  The candidate
  rows are \<open>_i + 1 \<dots> _columns - 1\<close>, and the record \<open>_pivot\<close> keeps its sign while the
  candidates are compared by absolute value, as in the source.
\<close>

definition pivot_step :: "jsnum list list \<Rightarrow> nat \<Rightarrow> nat \<Rightarrow> jsnum \<times> nat \<Rightarrow> jsnum \<times> nat" where
  "pivot_step AB i k st = (if fst st < \<bar>AB ! k ! i\<bar> then (AB ! k ! i, k) else st)"

definition pivot_row :: "jsnum list list \<Rightarrow> nat \<Rightarrow> nat \<Rightarrow> nat" where
  "pivot_row AB columns i = snd (fold (pivot_step AB i) [Suc i..<columns] (AB ! i ! i, i))"

definition swap_rows :: "jsnum list list \<Rightarrow> nat \<Rightarrow> nat \<Rightarrow> jsnum list list" where
  "swap_rows AB i j = (AB[i := AB ! j])[j := AB ! i]"

text \<open>
  Elimination below row \<open>_i\<close>: in every later row the entries from column \<open>_i\<close> on
  lose \<open>_fac\<close> times the entry of row \<open>_i\<close>.  The divisor \<open>_AB[_i][_i]\<close> is not tested.
\<close>

definition nullify_row :: "jsnum list \<Rightarrow> nat \<Rightarrow> jsnum list \<Rightarrow> jsnum list" where
  "nullify_row pivot_line i row =
     (let fac = row ! i / pivot_line ! i
      in map (\<lambda>(k, a). if i \<le> k then a - fac * pivot_line ! k else a) (enumerate 0 row))"

definition nullify :: "jsnum list list \<Rightarrow> nat \<Rightarrow> jsnum list list" where
  "nullify AB i =
     map (\<lambda>(j, row). if i < j then nullify_row (AB ! i) i row else row) (enumerate 0 AB)"

text \<open>
  One round of the outer loop.  With \<open>_i\<close> beyond the last column nothing is in range:
  the pivot is \<open>undefined\<close>, no row is exchanged and the inner loop is empty.
\<close>

definition elim_step :: "nat \<Rightarrow> nat \<Rightarrow> nat \<Rightarrow> jsnum list list \<Rightarrow> jsnum list list" where
  "elim_step columns abColumns i AB =
     (if i < abColumns then nullify (swap_rows AB i (pivot_row AB columns i)) i else AB)"

text \<open>
  Back substitution, from row \<open>_columns - 1\<close> up to row \<open>0\<close>; the argument counts the
  rows still to do, and the values of \<open>xo_out\<close> are collected in index order.
\<close>

fun back_subst :: "nat \<Rightarrow> nat \<Rightarrow> jsnum list list \<Rightarrow> jsnum list \<Rightarrow> jsnum list" where
  "back_subst columns 0 AB xo_out = xo_out"
| "back_subst columns (Suc i) AB xo_out =
     (let temp = AB ! i ! columns / AB ! i ! i
      in back_subst columns i
           (map (\<lambda>(j, row). if j < i then row[columns := row ! columns - row ! i * temp] else row)
              (enumerate 0 AB))
           (temp # xo_out))"

text \<open>
  \<open>_gaussElimination\<close> on a matrix whose rows all have \<open>_columns\<close> entries (the fits
  build no other).  Without rows \<open>xi_A[0].length\<close> throws; with fewer rows than
  columns the pivot search reads \<open>_AB[_k][_i]\<close> in a row that does not exist and throws.
  There is no other exit than the returned array.
\<close>

definition gaussElimination :: "jsnum list list \<Rightarrow> jsnum list \<Rightarrow> js_error + jsnum list" where
  "gaussElimination xi_A xi_B =
     (if xi_A = [] then Inl TypeError
      else (let columns = length (xi_A ! 0);
                rows = length xi_A;
                AB = concat_col xi_A xi_B;
                abColumns = length (AB ! 0)
            in if rows < columns then Inl TypeError
               else Inr (back_subst columns columns
                           (fold (elim_step columns abColumns) [0..<rows] AB) [])))"

definition fitCircle :: "polygon \<Rightarrow> js_error + jsnum list" where
  "fitCircle p =
     (let A = map (\<lambda>v. [Fin (fst v), Fin (snd v), Fin 1]) p;
          B = map (\<lambda>v. - (Fin (fst v) * Fin (fst v) + Fin (snd v) * Fin (snd v))) p
      in case gaussElimination A B of
           Inl e \<Rightarrow> Inl e
         | Inr X \<Rightarrow>
             (let xi = X ! 0; yi = X ! 1
              in Inr [- xi / Fin 2, - yi / Fin 2,
                      jsqrt ((xi * xi + yi * yi) / Fin 4 - X ! 2)]))"

definition fitEllipse :: "polygon \<Rightarrow> js_error + jsnum list" where
  "fitEllipse p =
     (let A = map (\<lambda>v. [Fin 2 * Fin (fst v) * Fin (snd v), Fin (snd v) * Fin (snd v),
                         Fin 2 * Fin (fst v), Fin 2 * Fin (snd v), Fin 1]) p;
          B = map (\<lambda>v. - Fin (fst v) * Fin (fst v)) p
      in case gaussElimination A B of
           Inl e \<Rightarrow> Inl e
         | Inr X \<Rightarrow>
             (let b = X ! 0; c = X ! 1; d = X ! 2; f = X ! 3; g = X ! 4;
                  i = b * b - c;
                  xi = (c * d - b * f) / i;
                  yi = (f - b * d) / i;
                  nom = Fin 2 * (f * f + c * d * d + g * b * b - Fin 2 * b * d * f - c * g);
                  s = jsqrt (Fin 1 + (Fin 4 * b * b) / ((Fin 1 - c) * (Fin 1 - c)));
                  phi = (Fin pi / Fin 2 - jatan ((c - Fin 1) / (Fin 2 * b))) / Fin 2;
                  aPrime = jsqrt \<bar>nom / (i * ((c - Fin 1) * s - (c + Fin 1)))\<bar>;
                  bPrime = jsqrt \<bar>nom / (i * ((Fin 1 - c) * s - (c + Fin 1)))\<bar>;
                  phi1 = (if aPrime < bPrime then Fin pi / Fin 2 - phi else phi)
              in Inr [xi, yi, jmax aPrime bPrime, jmin aPrime bPrime,
                      phi1 * Fin 180 / Fin pi]))"

text \<open>
  \<open>radialFit\<close>: the argument is compared in upper case with \<open>'CIRCLE'\<close> and
  \<open>'ELLIPSE'\<close>; every other string takes the default branch, the circle.
\<close>

datatype fit_type = CIRCLE | ELLIPSE | OTHER

fun radialFit :: "fit_type \<Rightarrow> polygon \<Rightarrow> js_error + jsnum list" where
  "radialFit CIRCLE p = fitCircle p"
| "radialFit ELLIPSE p = fitEllipse p"
| "radialFit OTHER p = fitCircle p"

section \<open>Concrete polygons\<close>

definition square10 :: polygon where
  "square10 = [(0, 0), (10, 0), (10, 10), (0, 10)]"

definition quad :: polygon where
  "quad = [(0, 0), (12, 0), (12, 12), (0, 24)]"

definition tri :: polygon where
  "tri = [(3, 6), (3, 3), (6, 3)]"

definition subj :: polygon where
  "subj = [(1, 1), (2, 2), (20, 1)]"

definition corner :: polygon where
  "corner = [(0, 5), (0, 0), (5, 0)]"

text \<open>
  Four vertices and a tolerance on which rounding decides what \<open>simplify\<close> keeps.  The
  tolerance is the double that is written \<open>10660.020684782934\<close> in decimal.
\<close>

definition zigzag :: polygon where
  "zigzag = [(0, 0), (9583, 5349), (- 21, 10660), (38579, 76)]"

definition zigzag_tolerance :: real where
  "zigzag_tolerance = 5860408347625757 / 2 ^ 39"

section \<open>Arithmetic on finite numbers\<close>

lemmas jsnum_ops = plus_jsnum_def minus_jsnum_def uminus_jsnum_def times_jsnum_def
  divide_jsnum_def less_jsnum_def less_eq_jsnum_def abs_jsnum_def

lemma Fin_add: "Fin a + Fin b = Fin (a + b)"
  by (simp add: jsnum_ops)

lemma Fin_sub: "Fin a - Fin b = Fin (a - b)"
  by (simp add: jsnum_ops)

lemma Fin_neg: "- Fin a = (if a = 0 then NegZero else Fin (- a))"
  by (simp add: jsnum_ops)

lemma Fin_mul:
  "Fin a * Fin b = (if a * b = 0 then signed_zero ((a < 0) \<noteq> (b < 0)) else Fin (a * b))"
  by (simp add: jsnum_ops jmul_def)

lemma Fin_div: "0 < b \<Longrightarrow> Fin a / Fin b = (if a = 0 then Fin 0 else Fin (a / b))"
  by (simp add: jsnum_ops jdiv_def signed_zero_def)

lemma Fin_less: "(Fin a < Fin b) = (a < b)"
  by (simp add: jsnum_ops jlt_def)

lemma Fin_le: "(Fin a \<le> Fin b) = (a \<le> b)"
  by (simp add: less_eq_jsnum_def jle_def)

lemma Fin_square: "Fin a * Fin a = Fin (a * a)"
  by (simp add: times_jsnum_def jmul_def signed_zero_def)

lemma Fin_times_cases: "Fin a * Fin b = Fin (a * b) \<or> (Fin a * Fin b = NegZero \<and> a * b = 0)"
  by (auto simp: times_jsnum_def jmul_def signed_zero_def)

lemma NegZero_ops:
  "NegZero + Fin b = Fin b" "Fin a + NegZero = Fin a" "NegZero + NegZero = NegZero"
  "NegZero - Fin b = (if b = 0 then NegZero else Fin (- b))" "Fin a - NegZero = Fin a"
  "- NegZero = Fin 0"
  "NegZero * Fin b = signed_zero (\<not> b < 0)" "Fin a * NegZero = signed_zero (\<not> a < 0)"
  "NegZero * NegZero = Fin 0"
  "0 < b \<Longrightarrow> NegZero / Fin b = NegZero"
  "(NegZero < Fin b) = (0 < b)" "(Fin a < NegZero) = (a < 0)"
  by (simp_all add: jsnum_ops jmul_def jdiv_def jlt_def signed_zero_def)

lemmas fin_arith = Fin_add Fin_sub Fin_neg Fin_mul Fin_div Fin_less NegZero_ops signed_zero_def

lemmas data_unfold = getX_def getY_def mean_js_def translated_def sum_js_def dot2_def dot3_def
  dot4_def diff_def Let_def fin_arith

section \<open>The moment calculator on concrete polygons\<close>

lemma square10_raw:
  "raw_A square10 = Fin (- 100)" "raw_Cx square10 = Fin 0" "raw_Cy square10 = Fin 0"
  "raw_Ixy square10 = Fin 0"
  by (simp_all add: raw_A_def raw_Cx_def raw_Cy_def raw_Ixy_def square10_def data_unfold)

lemma square10_mean: "mean_js (getX square10) = Fin 5" "mean_js (getY square10) = Fin 5"
  by (simp_all add: square10_def data_unfold)

text \<open>
  C2.  The claim: the global product of inertia returned by \<open>data\<close> is
  \<open>Iuv + A * Cx * Cy\<close>.  The source multiplies where its two sibling lines add:
  \<open>_Ixy = _Iuv * _A * _Cx * _Cy\<close>.  On the square with corners \<open>(0,0)\<close> and \<open>(10,10)\<close>
  \<open>data\<close> returns \<open>Ixy = -0\<close>, while \<open>Iuv + A * Cx * Cy\<close> of the returned values is
  \<open>2500\<close>.
\<close>

theorem data_Ixy_square:
  "Ixy (data square10) = NegZero \<and>
   Iuv (data square10) + area (data square10) * centroidX (data square10)
     * centroidY (data square10) = Fin 2500"
  by (simp add: data_def Let_def square10_raw square10_mean fin_arith)

lemma quad_raw: "raw_A quad = Fin (- 216)" "raw_Cx quad = Fin 144" "raw_Cy quad = Fin (- 72)"
  by (simp_all add: raw_A_def raw_Cx_def raw_Cy_def quad_def data_unfold)

lemma quad_mean: "mean_js (getX quad) = Fin 6" "mean_js (getY quad) = Fin 9"
  by (simp_all add: quad_def data_unfold)

text \<open>
  C3.  The claim: the centroid returned by \<open>data\<close> is the mean of the vertices plus the
  first moments divided by the area.  The source adds the first moments themselves:
  \<open>_Cx = _xm + _Cx\<close>, although \<open>_xc = _Cx / _A\<close> was computed two lines above.  On the
  quadrilateral \<open>(0,0), (12,0), (12,12), (0,24)\<close>, of area \<open>216\<close>, \<open>data\<close> returns the
  centroid \<open>(-138, 81)\<close>; the mean plus first moment over area is \<open>(16/3, 28/3)\<close>.
\<close>

theorem data_centroid_quad:
  "area (data quad) = Fin 216 \<and>
   centroidX (data quad) = Fin (- 138) \<and> centroidY (data quad) = Fin 81 \<and>
   mean_js (getX quad) + (- raw_Cx quad) / area (data quad) = Fin (16 / 3) \<and>
   mean_js (getY quad) + (- raw_Cy quad) / area (data quad) = Fin (28 / 3)"
  by (simp add: data_def Let_def quad_raw quad_mean fin_arith)

text \<open>
  C5.  The claim: \<open>isClockWise\<close> is true exactly when the raw signed area of \<open>data\<close> is
  positive.  The sum of \<open>isClockWise\<close> leaves out the closing edge.  The triangle
  \<open>(3,6), (3,3), (6,3)\<close> has the raw area \<open>-9/2\<close>, and \<open>isClockWise\<close> is true.
\<close>

theorem isClockWise_open_sum:
  "isClockWise tri \<and> raw_A tri = Fin (- (9 / 2)) \<and> \<not> Fin 0 < raw_A tri"
  by (simp add: isClockWise_def raw_A_def tri_def data_unfold)

section \<open>Intersection of the square with itself\<close>

lemma intersect_square10: "intersect square10 square10 = [(0, 10), (0, 0), (10, 0), (10, 10)]"
  by (simp add: intersect_def clip_def square10_def in_edge_def clip_inter_def clip_divisor_def)

lemma raw_A_rotated_square: "raw_A [(0, 10), (0, 0), (10, 0), (10, 10)] = Fin (- 100)"
  by (simp add: raw_A_def data_unfold)

text \<open>
  The divisor of the intersection point is never zero where the clipping loop asks for
  the point: the two ends of the subject edge are on different sides of the clip edge.
\<close>

lemma clip_divisor_nonzero:
  "in_edge c1 c2 endPt \<noteq> in_edge c1 c2 startPt \<Longrightarrow> clip_divisor c1 c2 startPt endPt \<noteq> 0"
proof
  assume differ: "in_edge c1 c2 endPt \<noteq> in_edge c1 c2 startPt"
    and zero: "clip_divisor c1 c2 startPt endPt = 0"
  from zero have
    "(fst c2 - fst c1) * (snd endPt - snd c1) - (snd c2 - snd c1) * (fst endPt - fst c1)
      = (fst c2 - fst c1) * (snd startPt - snd c1) - (snd c2 - snd c1) * (fst startPt - fst c1)"
    by (simp add: clip_divisor_def algebra_simps)
  then have "in_edge c1 c2 endPt = in_edge c1 c2 startPt"
    by (auto simp: in_edge_def)
  with differ show False by simp
qed

text \<open>
  C6.  \<open>intersect\<close> of the square \<open>(0,0), (10,0), (10,10), (0,10)\<close> with itself returns a
  polygon whose \<open>data\<close> area is \<open>100\<close>.
\<close>

theorem intersect_square_area: "area (data (intersect square10 square10)) = Fin 100"
  by (simp add: intersect_square10 data_def Let_def raw_A_rotated_square fin_arith)

section \<open>Trimming in \<open>union\<close>\<close>

lemma inside_square10: "inside square10 2 2"
  by (simp add: inside_def square10_def crossing_def)

lemma trim_subj: "trim square10 subj = [(2, 2), (20, 1)]"
  by (simp add: trim_def trim_step_def subj_def inside_def square10_def crossing_def remove_def)

lemma trim_square10: "trim [(2, 2), (20, 1)] square10 = square10"
  by (simp add: trim_def trim_step_def inside_def square10_def crossing_def remove_def)

text \<open>
  C1.  The claim: after the two trimming loops of \<open>union\<close> the copy of the subject holds
  no vertex inside the clipper.  The loop goes on to the next index after a removal,
  so the vertex that moved into the freed place is never tested.  With the subject
  \<open>(1,1), (2,2), (20,1)\<close> and the square as clipper, \<open>(1,1)\<close> is removed and \<open>(2,2)\<close>,
  which is inside the square, stays.
\<close>

theorem union_trim_keeps_inside_vertex:
  "union_trim subj square10 = ([(2, 2), (20, 1)], square10) \<and> inside square10 2 2"
  by (simp add: union_trim_def slice_all_def trim_subj trim_square10 inside_square10)

section \<open>Convex hull\<close>

text \<open>
  C9.  The claim: the first point of \<open>convexHull\<close> has the least \<open>x\<close> and, among those,
  the least \<open>y\<close>.  The tie on \<open>x\<close> is decided with \<open>this.accuracy\<close> read inside the
  inner function, where it is \<open>undefined\<close>, so the test never holds and the first
  vertex of least \<open>x\<close> wins.  For \<open>(0,5), (0,0), (5,0)\<close> the hull starts at \<open>(0,5)\<close>.
\<close>

theorem convexHull_first_point:
  "convexHull None corner = Some (Hull [(0, 5), (0, 0), (5, 0)])"
  by (simp add: convexHull_def corner_def leftBottom_def leftBottom_step_def below_accuracy_def
      hull_loop.simps next_end_def cross_neg_def Let_def)

section \<open>\<open>sortCW\<close> permutes the vertices\<close>

lemma insort_js_mset: "mset (insort_js cmp a xs) = add_mset a (mset xs)"
  by (induction xs) auto

lemma sort_js_mset: "mset (sort_js cmp xs) = mset xs"
  by (induction xs) (auto simp: sort_js_def insort_js_mset)

lemma sortCW_mset: "mset (sortCW p) = mset p"
proof -
  define mk where "mk = (\<lambda>v :: vertex. \<lparr> angle = atan2_approx
       (Fin (snd v) - sum_js (getY p) / Fin (real (length p)))
       (Fin (fst v) - sum_js (getX p) / Fin (real (length p))), zx = fst v, zy = snd v \<rparr>)"
  define un where "un = (\<lambda>t :: angle_zipped. (zx t, zy t))"
  have "sortCW p = map un (sort_js (\<lambda>a b. angle a - angle b) (map mk p))"
    by (simp add: sortCW_def Let_def mk_def un_def)
  then have "mset (sortCW p) = image_mset un (mset (map mk p))"
    by (simp add: sort_js_mset)
  also have "\<dots> = mset (map (un \<circ> mk) p)"
    by (simp add: multiset.map_comp)
  also have "map (un \<circ> mk) p = p"
    by (simp add: un_def mk_def comp_def)
  finally show ?thesis .
qed

lemma insertPolygon_mset: "mset (insertPolygon p i q) = mset p + mset q"
proof -
  have "mset (take i p) + mset (drop i p) = mset p"
    by (simp flip: mset_append)
  then have "mset (take i p @ q @ drop i p) = mset p + mset q"
    by (simp add: ac_simps)
  then show ?thesis by (simp add: insertPolygon_def)
qed

lemma union_poly_mset:
  "mset (union_poly s c)
   = mset (intersect (fst (union_trim s c)) (snd (union_trim s c)))
     + mset (fst (union_trim s c)) + mset (snd (union_trim s c))"
  by (simp add: union_poly_def Let_def case_prod_beta sortCW_mset insertPolygon_mset)

text \<open>
  C10.  \<open>sortCW\<close> only reorders: the multiset of vertices and their number are the same
  before and after.  So \<open>union\<close>, which sorts the concatenation of the intersection and
  the two trimmed polygons, returns exactly those vertices.
\<close>

theorem sortCW_permutation:
  "mset (sortCW p) = mset p \<and> length (sortCW p) = length p \<and>
   mset (union_poly s c)
   = mset (intersect (fst (union_trim s c)) (snd (union_trim s c)))
     + mset (fst (union_trim s c)) + mset (snd (union_trim s c))"
  using sortCW_mset [of p] mset_eq_length [of "sortCW p" p] union_poly_mset [of s c] by simp

section \<open>\<open>lineIntersect\<close> and a parallel edge\<close>

text \<open>
  C8.  An edge parallel to the query segment can contribute a point, and the reciprocal
  of a zero determinant is taken.

  For the segment from \<open>(0,0)\<close> to \<open>(1,1)\<close> and the polygon with the vertices \<open>(1,2)\<close>,
  \<open>(0,1)\<close>, \<open>(0,5)\<close>: the edge from \<open>(1,2)\<close> to \<open>(0,1)\<close> is parallel to the segment (the
  determinant of the directions is \<open>0\<close>) and does not meet it.  \<open>_s2x\<close> is computed as
  \<open>xi_x2_l2 - xi_x1_l1\<close>, the end of the edge minus the start of the segment, so the
  determinant that \<open>_lineLineInter\<close> evaluates is \<open>-1\<close>, and \<open>lineIntersect\<close> reports the
  point \<open>(1,1)\<close>.

  For the segment from \<open>(0,0)\<close> to \<open>(1,0)\<close> and the parallel edge from \<open>(0,1)\<close> to \<open>(1,1)\<close>
  the determinant evaluated is \<open>0\<close> and \<open>_den\<close> is \<open>1 / 0\<close>, that is \<open>Infinity\<close>.
\<close>

theorem lineIntersect_parallel_edge:
  "direction_determinant 0 0 1 1 (1, 2) (0, 1) = 0 \<and>
   determinant (edge_args 0 0 1 1 (1, 2) (0, 1)) = Fin (- 1) \<and>
   lineIntersect [(1, 2), (0, 1), (0, 5)] 0 0 1 1
     = \<lparr> FLAG = True, Xs = [Fin 1], Ys = [Fin 1] \<rparr> \<and>
   direction_determinant 0 0 1 0 (0, 1) (1, 1) = 0 \<and>
   determinant (edge_args 0 0 1 0 (0, 1) (1, 1)) = Fin 0 \<and>
   den (edge_args 0 0 1 0 (0, 1) (1, 1)) = Fin 1 / Fin 0 \<and> Fin 1 / Fin 0 = PInf"
  by (simp add: direction_determinant_def lineIntersect_def edges_def edge_contribution_def
      lineLineInter_def param_s_def param_t_def den_def determinant_def edge_args_def
      s1x_def s1y_def s2x_def s2y_def fin_arith jsnum_ops jdiv_def jle_def jmul_def
      signed_inf_def)

section \<open>The linear solver on a singular system\<close>

lemma gauss_collinear:
  "gaussElimination [[Fin 0, Fin 0, Fin 1], [Fin 1, Fin 1, Fin 1], [Fin 2, Fin 2, Fin 1]]
     [NegZero, Fin (- 2), Fin (- 8)] = Inr [NaN, NaN, NaN]"
  by (simp add: gaussElimination_def concat_col_def elim_step_def pivot_row_def pivot_step_def
      swap_rows_def nullify_def nullify_row_def Let_def jsnum_ops jmul_def jdiv_def jlt_def
      signed_zero_def signed_inf_def)

lemma NaN_ops:
  "- NaN = NaN" "NaN / v = NaN" "v / NaN = NaN" "NaN * v = NaN" "v * NaN = NaN"
  "NaN + v = NaN" "v + NaN = NaN" "NaN - v = NaN" "v - NaN = NaN"
  by (cases v; simp add: jsnum_ops jmul_def jdiv_def)+

text \<open>
  C4, against the claim that a singular system is reported as a failure: the circle fit over
  the collinear points \<open>(0,0), (1,1), (2,2)\<close> returns the array \<open>[NaN, NaN, NaN]\<close>.
\<close>

theorem radialFit_collinear_NaN:
  "radialFit CIRCLE [(0, 0), (1, 1), (2, 2)] = Inr [NaN, NaN, NaN]"
  by (simp add: fitCircle_def Let_def fin_arith gauss_collinear NaN_ops)

lemma gaussElimination_returns:
  "xi_A \<noteq> [] \<Longrightarrow> length (xi_A ! 0) \<le> length xi_A \<Longrightarrow>
   \<exists>r. gaussElimination xi_A xi_B = Inr r"
  by (simp add: gaussElimination_def Let_def)

text \<open>
  C4, as the code has it.  \<open>radialFit\<close> has no report for a singular system: with at
  least three vertices the circle fit returns an array of three numbers, and with at
  least five the ellipse fit returns an array of five, whatever the divisions by the
  pivots produced.
\<close>

theorem radialFit_never_reports:
  "(3 \<le> length p \<longrightarrow> (\<exists>r. radialFit CIRCLE p = Inr r \<and> length r = 3)) \<and>
   (5 \<le> length p \<longrightarrow> (\<exists>r. radialFit ELLIPSE p = Inr r \<and> length r = 5))"
proof (intro conjI impI)
  assume len: "3 \<le> length p"
  then obtain v rest where p: "p = v # rest" by (cases p) auto
  from len obtain X where
    "gaussElimination (map (\<lambda>v. [Fin (fst v), Fin (snd v), Fin 1]) p)
       (map (\<lambda>v. - (Fin (fst v) * Fin (fst v) + Fin (snd v) * Fin (snd v))) p) = Inr X"
    using gaussElimination_returns [of "map (\<lambda>v. [Fin (fst v), Fin (snd v), Fin 1]) p"]
    by (auto simp: p)
  then show "\<exists>r. radialFit CIRCLE p = Inr r \<and> length r = 3"
    by (simp add: fitCircle_def Let_def)
next
  assume len: "5 \<le> length p"
  then obtain v rest where p: "p = v # rest" by (cases p) auto
  from len obtain X where
    "gaussElimination (map (\<lambda>v. [Fin 2 * Fin (fst v) * Fin (snd v), Fin (snd v) * Fin (snd v),
                         Fin 2 * Fin (fst v), Fin 2 * Fin (snd v), Fin 1]) p)
       (map (\<lambda>v. - Fin (fst v) * Fin (fst v)) p) = Inr X"
    using gaussElimination_returns [of "map (\<lambda>v. [Fin 2 * Fin (fst v) * Fin (snd v), Fin (snd v) * Fin (snd v),
                         Fin 2 * Fin (fst v), Fin 2 * Fin (snd v), Fin 1]) p"]
    by (auto simp: p)
  then show "\<exists>r. radialFit ELLIPSE p = Inr r \<and> length r = 5"
    by (simp add: fitEllipse_def Let_def)
qed

theorem radialFit_never_reports_witness:
  "3 \<le> length [(0, 0), (1, 1), (2, 2), (3, 3), (4 :: real, 4 :: real)] \<and>
   (\<exists>r. radialFit CIRCLE [(0, 0), (1, 1), (2, 2), (3, 3), (4, 4)] = Inr r \<and> length r = 3) \<and>
   5 \<le> length [(0, 0), (1, 1), (2, 2), (3, 3), (4 :: real, 4 :: real)] \<and>
   (\<exists>r. radialFit ELLIPSE [(0, 0), (1, 1), (2, 2), (3, 3), (4, 4)] = Inr r \<and> length r = 5)"
  using radialFit_never_reports [of "[(0, 0), (1, 1), (2, 2), (3, 3), (4, 4)]"] by simp

section \<open>\<open>simplify\<close> in exact arithmetic\<close>

text \<open>
  The lemmas of this section are about the simplifier over the real numbers
  (\<open>seg_dist_real\<close>, \<open>max_scan_real\<close>, \<open>reduce_real\<close>, \<open>radial_filter_real\<close>,
  \<open>simplify_real\<close>).
\<close>

subsection \<open>The scan for the farthest vertex\<close>

lemma scan_fold_id:
  "\<forall>j \<in> set js. seg_dist_real (vs ! s) (vs ! e) (vs ! j) \<le> snd st \<Longrightarrow>
   fold (scan_step_real vs s e) js st = st"
  by (induction js) (auto simp: scan_step_real_def)

lemma scan_fold_eq:
  assumes "snd st < seg_dist_real (vs ! s) (vs ! e) (vs ! m)"
    and "\<forall>j \<in> set pre. seg_dist_real (vs ! s) (vs ! e) (vs ! j) < seg_dist_real (vs ! s) (vs ! e) (vs ! m)"
    and "\<forall>j \<in> set post. seg_dist_real (vs ! s) (vs ! e) (vs ! j) \<le> seg_dist_real (vs ! s) (vs ! e) (vs ! m)"
  shows "fold (scan_step_real vs s e) (pre @ m # post) st = (m, seg_dist_real (vs ! s) (vs ! e) (vs ! m))"
  using assms
proof (induction pre arbitrary: st)
  case Nil
  then have "scan_step_real vs s e m st = (m, seg_dist_real (vs ! s) (vs ! e) (vs ! m))"
    by (simp add: scan_step_real_def)
  with Nil show ?case by (simp add: scan_fold_id)
next
  case (Cons i pre)
  have "snd (scan_step_real vs s e i st) < seg_dist_real (vs ! s) (vs ! e) (vs ! m)"
    using Cons.prems by (simp add: scan_step_real_def)
  with Cons show ?case by simp
qed

lemma scan_fold_decomp:
  "(fold (scan_step_real vs s e) js st = st \<and>
      (\<forall>j \<in> set js. seg_dist_real (vs ! s) (vs ! e) (vs ! j) \<le> snd st)) \<or>
   (\<exists>pre post. js = pre @ fst (fold (scan_step_real vs s e) js st) # post \<and>
      snd (fold (scan_step_real vs s e) js st)
        = seg_dist_real (vs ! s) (vs ! e) (vs ! fst (fold (scan_step_real vs s e) js st)) \<and>
      snd st < snd (fold (scan_step_real vs s e) js st) \<and>
      (\<forall>j \<in> set pre. seg_dist_real (vs ! s) (vs ! e) (vs ! j) < snd (fold (scan_step_real vs s e) js st)) \<and>
      (\<forall>j \<in> set post. seg_dist_real (vs ! s) (vs ! e) (vs ! j) \<le> snd (fold (scan_step_real vs s e) js st)))"
proof (induction js arbitrary: st)
  case Nil
  show ?case by simp
next
  case (Cons i js)
  let ?d = "\<lambda>j. seg_dist_real (vs ! s) (vs ! e) (vs ! j)"
  let ?r = "fold (scan_step_real vs s e) js (scan_step_real vs s e i st)"
  show ?case
  proof (cases "?d i \<le> snd st")
    case True
    then have st1: "scan_step_real vs s e i st = st" by (simp add: scan_step_real_def)
    from Cons.IH [of st] show ?thesis
    proof (elim disjE conjE exE)
      assume "fold (scan_step_real vs s e) js st = st" "\<forall>j \<in> set js. ?d j \<le> snd st"
      with True st1 show ?thesis by simp
    next
      fix pre post
      assume a: "js = pre @ fst (fold (scan_step_real vs s e) js st) # post"
        and b: "snd (fold (scan_step_real vs s e) js st) = ?d (fst (fold (scan_step_real vs s e) js st))"
        and c: "snd st < snd (fold (scan_step_real vs s e) js st)"
        and d: "\<forall>j \<in> set pre. ?d j < snd (fold (scan_step_real vs s e) js st)"
        and e: "\<forall>j \<in> set post. ?d j \<le> snd (fold (scan_step_real vs s e) js st)"
      from a have "i # js = (i # pre) @ fst (fold (scan_step_real vs s e) js st) # post" by simp
      moreover from True c d have "\<forall>j \<in> set (i # pre). ?d j < snd (fold (scan_step_real vs s e) js st)"
        by auto
      ultimately show ?thesis using b c e st1
        by (intro disjI2 exI [of _ "i # pre"] exI [of _ post]) simp
    qed
  next
    case False
    then have st1: "scan_step_real vs s e i st = (i, ?d i)" by (simp add: scan_step_real_def)
    from Cons.IH [of "(i, ?d i)"] show ?thesis
    proof (elim disjE conjE exE)
      assume "fold (scan_step_real vs s e) js (i, ?d i) = (i, ?d i)"
        "\<forall>j \<in> set js. ?d j \<le> snd (i, ?d i)"
      with False st1 show ?thesis
        by (intro disjI2 exI [of _ "[]"] exI [of _ js]) simp
    next
      fix pre post
      let ?q = "fold (scan_step_real vs s e) js (i, ?d i)"
      assume a: "js = pre @ fst ?q # post"
        and b: "snd ?q = ?d (fst ?q)"
        and c: "snd (i, ?d i) < snd ?q"
        and d: "\<forall>j \<in> set pre. ?d j < snd ?q"
        and e: "\<forall>j \<in> set post. ?d j \<le> snd ?q"
      from a have "i # js = (i # pre) @ fst ?q # post" by simp
      moreover from c d have "\<forall>j \<in> set (i # pre). ?d j < snd ?q" by auto
      moreover from False c have "snd st < snd ?q" by simp
      ultimately show ?thesis using b e st1
        by (intro disjI2 exI [of _ "i # pre"] exI [of _ post]) simp
    qed
  qed
qed


lemma max_scan_cases:
  "(max_scan_real vs s e = (s, 0) \<and> (\<forall>i. s < i \<and> i < e \<longrightarrow> seg_dist_real (vs ! s) (vs ! e) (vs ! i) \<le> 0)) \<or>
   (s < fst (max_scan_real vs s e) \<and> fst (max_scan_real vs s e) < e \<and>
    snd (max_scan_real vs s e) = seg_dist_real (vs ! s) (vs ! e) (vs ! fst (max_scan_real vs s e)) \<and>
    0 < snd (max_scan_real vs s e) \<and>
    (\<forall>i. s < i \<and> i < fst (max_scan_real vs s e) \<longrightarrow>
         seg_dist_real (vs ! s) (vs ! e) (vs ! i) < snd (max_scan_real vs s e)) \<and>
    (\<forall>i. s < i \<and> i < e \<longrightarrow> seg_dist_real (vs ! s) (vs ! e) (vs ! i) \<le> snd (max_scan_real vs s e)))"
proof -
  let ?d = "\<lambda>j. seg_dist_real (vs ! s) (vs ! e) (vs ! j)"
  let ?r = "fold (scan_step_real vs s e) [Suc s..<e] (s, 0)"
  from scan_fold_decomp [of vs s e "[Suc s..<e]" "(s, 0)"] show ?thesis
  proof (elim disjE conjE exE)
    assume "?r = (s, 0)" "\<forall>j \<in> set [Suc s..<e]. ?d j \<le> snd (s, 0 :: real)"
    then show ?thesis by (auto simp: max_scan_real_def)
  next
    fix pre post
    assume a: "[Suc s..<e] = pre @ fst ?r # post"
      and b: "snd ?r = ?d (fst ?r)"
      and c: "snd (s, 0 :: real) < snd ?r"
      and d: "\<forall>j \<in> set pre. ?d j < snd ?r"
      and e: "\<forall>j \<in> set post. ?d j \<le> snd ?r"
    have "sorted_wrt (<) [Suc s..<e]" by simp
    with a have sorted: "sorted_wrt (<) (pre @ fst ?r # post)" by simp
    then have lo: "\<forall>j \<in> set pre. j < fst ?r" and hi: "\<forall>j \<in> set post. fst ?r < j"
      by (auto simp: sorted_wrt_append)
    have mem: "set [Suc s..<e] = set pre \<union> {fst ?r} \<union> set post"
      by (subst a) auto
    have "fst ?r \<in> set [Suc s..<e]"
      by (subst a) simp
    then have in_range: "s < fst ?r \<and> fst ?r < e" by simp
    have before: "?d i < snd ?r" if "s < i" "i < fst ?r" for i
    proof -
      from that in_range have "i \<in> set [Suc s..<e]" by simp
      with mem that hi have "i \<in> set pre" by auto
      with d show ?thesis by simp
    qed
    have all: "?d i \<le> snd ?r" if "s < i" "i < e" for i
    proof -
      from that have "i \<in> set [Suc s..<e]" by simp
      with mem have "i \<in> set pre \<or> i = fst ?r \<or> i \<in> set post" by auto
      with b d e show ?thesis by (auto intro: less_imp_le)
    qed
    from in_range b c before all show ?thesis
      by (simp add: max_scan_real_def)
  qed
qed

lemma max_scan_bounds:
  "t * t < snd (max_scan_real vs s e) \<Longrightarrow> s < fst (max_scan_real vs s e) \<and> fst (max_scan_real vs s e) < e"
proof -
  assume big: "t * t < snd (max_scan_real vs s e)"
  have "0 \<le> t * t" by simp
  with big have "max_scan_real vs s e \<noteq> (s, 0)" by auto
  with max_scan_cases [of vs s e] show ?thesis by blast
qed

lemma max_scan_eq:
  assumes "s < m" "m < e" "0 < seg_dist_real (vs ! s) (vs ! e) (vs ! m)"
    and "\<forall>i. s < i \<and> i < m \<longrightarrow> seg_dist_real (vs ! s) (vs ! e) (vs ! i) < seg_dist_real (vs ! s) (vs ! e) (vs ! m)"
    and "\<forall>i. m < i \<and> i < e \<longrightarrow> seg_dist_real (vs ! s) (vs ! e) (vs ! i) \<le> seg_dist_real (vs ! s) (vs ! e) (vs ! m)"
  shows "max_scan_real vs s e = (m, seg_dist_real (vs ! s) (vs ! e) (vs ! m))"
proof -
  from assms(1,2) have "[Suc s..<m + (e - m)] = [Suc s..<m] @ [m..<m + (e - m)]"
    by (intro upt_add_eq_append) simp
  with assms(1,2) have split: "[Suc s..<e] = [Suc s..<m] @ m # [Suc m..<e]"
    by (simp add: upt_conv_Cons)
  have "fold (scan_step_real vs s e) ([Suc s..<m] @ m # [Suc m..<e]) (s, 0)
        = (m, seg_dist_real (vs ! s) (vs ! e) (vs ! m))"
    using assms by (intro scan_fold_eq) auto
  with split show ?thesis
    by (simp only: max_scan_real_def)
qed

lemma fold_scan_shift:
  assumes "\<forall>j \<in> set js. seg_dist_real (vs ! s') (vs ! e') (vs ! (j + k)) = seg_dist_real (ws ! s) (ws ! e) (ws ! j)"
  shows "fold (scan_step_real vs s' e') (map (\<lambda>i. i + k) js) (i0 + k, d0)
         = (fst (fold (scan_step_real ws s e) js (i0, d0)) + k, snd (fold (scan_step_real ws s e) js (i0, d0)))"
  using assms
proof (induction js arbitrary: i0 d0)
  case Nil
  show ?case by simp
next
  case (Cons j js)
  have "scan_step_real vs s' e' (j + k) (i0 + k, d0)
        = (fst (scan_step_real ws s e j (i0, d0)) + k, snd (scan_step_real ws s e j (i0, d0)))"
    using Cons.prems by (simp add: scan_step_real_def)
  moreover obtain i1 d1 where st: "scan_step_real ws s e j (i0, d0) = (i1, d1)"
    by (cases "scan_step_real ws s e j (i0, d0)")
  ultimately show ?case using Cons.IH [of i1 d1] Cons.prems by simp
qed

lemma map_add_upt_from: "map (\<lambda>i. i + k) [a..<b] = [a + k..<b + k]"
  by (induction b) simp_all

lemma max_scan_shift:
  assumes "\<forall>i. s \<le> i \<and> i \<le> e \<longrightarrow> ws ! i = vs ! (i + k)"
  shows "max_scan_real vs (s + k) (e + k) = (fst (max_scan_real ws s e) + k, snd (max_scan_real ws s e))"
proof (cases "s \<le> e")
  case True
  have "[Suc (s + k)..<e + k] = map (\<lambda>i. i + k) [Suc s..<e]"
    by (simp add: map_add_upt_from)
  moreover have "\<forall>j \<in> set [Suc s..<e].
      seg_dist_real (vs ! (s + k)) (vs ! (e + k)) (vs ! (j + k)) = seg_dist_real (ws ! s) (ws ! e) (ws ! j)"
    using assms True by auto
  ultimately show ?thesis
    unfolding max_scan_real_def by (simp add: fold_scan_shift)
next
  case False
  then show ?thesis by (simp add: max_scan_real_def)
qed

lemma mag2vec_expand: "magDiff2vec_real a b = (fst a - fst b)\<^sup>2 + (snd a - snd b)\<^sup>2"
  by (simp add: magDiff2vec_real_def mag2vec_real_def diff2vec_real_def power2_eq_square)

lemma magDiff2vec_sym: "magDiff2vec_real a b = magDiff2vec_real b a"
  by (simp add: mag2vec_expand power2_commute)

subsection \<open>The distance to a segment is at most the distance to its ends\<close>

lemma seg_dist_le_ends:
  "seg_dist_real a b v \<le> magDiff2vec_real v a \<and> seg_dist_real a b v \<le> magDiff2vec_real v b"
proof -
  define dx dy wx wy where "dx = fst b - fst a" and "dy = snd b - snd a"
    and "wx = fst v - fst a" and "wy = snd v - snd a"
  define dot len2 where "dot = wx * dx + wy * dy" and "len2 = dx * dx + dy * dy"
  have va: "magDiff2vec_real v a = wx * wx + wy * wy"
    by (simp add: magDiff2vec_real_def mag2vec_real_def diff2vec_real_def wx_def wy_def)
  have vb: "magDiff2vec_real v b = wx * wx + wy * wy - 2 * dot + len2"
    by (simp add: magDiff2vec_real_def mag2vec_real_def diff2vec_real_def wx_def wy_def dx_def dy_def
        dot_def len2_def algebra_simps)
  have len2_nonneg: "0 \<le> len2" by (simp add: len2_def)
  consider "dot \<le> 0" | "0 < dot" "len2 \<le> dot" | "0 < dot" "dot < len2" by linarith
  then show ?thesis
  proof cases
    case 1
    then have "seg_dist_real a b v = magDiff2vec_real v a"
      by (simp add: seg_dist_real_def Let_def dot2vec_real_def diff2vec_real_def dot_def wx_def wy_def dx_def dy_def)
    with 1 va vb len2_nonneg show ?thesis by simp
  next
    case 2
    then have "seg_dist_real a b v = magDiff2vec_real v b"
      by (simp add: seg_dist_real_def Let_def dot2vec_real_def diff2vec_real_def mag2vec_real_def dot_def len2_def
          wx_def wy_def dx_def dy_def)
    with 2 va vb show ?thesis by simp
  next
    case 3
    define p where "p = dot / len2"
    from 3 have pl: "p * len2 = dot" and p0: "0 < p" and p1: "p < 1"
      by (simp_all add: p_def)
    have "seg_dist_real a b v = magDiff2vec_real v (fst a + p * dx, snd a + p * dy)"
      using 3
      by (simp add: seg_dist_real_def Let_def dot2vec_real_def diff2vec_real_def mag2vec_real_def dot_def len2_def
          wx_def wy_def dx_def dy_def p_def)
    also have "\<dots> = (wx - p * dx) * (wx - p * dx) + (wy - p * dy) * (wy - p * dy)"
      by (simp add: magDiff2vec_real_def mag2vec_real_def diff2vec_real_def wx_def wy_def algebra_simps)
    also have "\<dots> = wx * wx + wy * wy - 2 * p * dot + p * (p * len2)"
      by (simp add: dot_def len2_def algebra_simps)
    also have "\<dots> = wx * wx + wy * wy - p * dot"
      by (simp add: pl)
    finally have sd: "seg_dist_real a b v = wx * wx + wy * wy - p * dot" .
    from p0 3 have "0 < p * dot" by simp
    with sd va have first: "seg_dist_real a b v \<le> magDiff2vec_real v a" by simp
    have "0 \<le> (1 - p) * (1 - p) * len2"
      using len2_nonneg by simp
    also have "(1 - p) * (1 - p) * len2 = len2 - 2 * (p * len2) + p * (p * len2)"
      by (simp add: algebra_simps)
    also have "\<dots> = len2 - 2 * dot + p * dot"
      by (simp add: pl)
    finally have "0 \<le> len2 - 2 * dot + p * dot" .
    with sd vb have "seg_dist_real a b v \<le> magDiff2vec_real v b" by simp
    with first show ?thesis by simp
  qed
qed

subsection \<open>The marks of \<open>reduce\<close>\<close>

lemma reduce_union: "reduce_real t vs s e key = key \<union> reduce_real t vs s e {}"
proof (induction "e - s" arbitrary: s e key rule: less_induct)
  case less
  show ?case
  proof (cases "\<not> e \<le> s + 1 \<and> t * t < snd (max_scan_real vs s e)")
    case False
    then show ?thesis by (auto simp: reduce_real.simps [of t vs s e])
  next
    case True
    define im where "im = fst (max_scan_real vs s e)"
    from True have b: "s < im" "im < e"
      using max_scan_bounds [of t vs s e] by (simp_all add: im_def)
    have un: "reduce_real t vs s e k = reduce_real t vs im e (reduce_real t vs s im (insert im k))" for k
      using True by (simp add: reduce_real.simps [of t vs s e] im_def)
    from b have l: "im - s < e - s" and r: "e - im < e - s" by simp_all
    have "reduce_real t vs s e key = reduce_real t vs s im (insert im key) \<union> reduce_real t vs im e {}"
      using less.hyps [OF r, of "reduce_real t vs s im (insert im key)"] by (simp add: un)
    also have "\<dots> = insert im key \<union> reduce_real t vs s im {} \<union> reduce_real t vs im e {}"
      using less.hyps [OF l, of "insert im key"] by simp
    finally have lhs: "reduce_real t vs s e key = insert im key \<union> reduce_real t vs s im {} \<union> reduce_real t vs im e {}" .
    have "reduce_real t vs s e {} = reduce_real t vs s im {im} \<union> reduce_real t vs im e {}"
      using less.hyps [OF r, of "reduce_real t vs s im {im}"] by (simp add: un)
    also have "\<dots> = {im} \<union> reduce_real t vs s im {} \<union> reduce_real t vs im e {}"
      using less.hyps [OF l, of "{im}"] by simp
    finally show ?thesis using lhs by auto
  qed
qed

lemma reduce_split:
  assumes "\<not> e \<le> s + 1" "t * t < snd (max_scan_real vs s e)"
  shows "reduce_real t vs s e {} = insert (fst (max_scan_real vs s e))
           (reduce_real t vs s (fst (max_scan_real vs s e)) {} \<union> reduce_real t vs (fst (max_scan_real vs s e)) e {})"
proof -
  have "reduce_real t vs s e {} = reduce_real t vs (fst (max_scan_real vs s e)) e
          (reduce_real t vs s (fst (max_scan_real vs s e)) {fst (max_scan_real vs s e)})"
    using assms by (simp add: reduce_real.simps [of t vs s e])
  also have "\<dots> = reduce_real t vs s (fst (max_scan_real vs s e)) {fst (max_scan_real vs s e)}
        \<union> reduce_real t vs (fst (max_scan_real vs s e)) e {}"
    by (rule reduce_union)
  also have "reduce_real t vs s (fst (max_scan_real vs s e)) {fst (max_scan_real vs s e)}
        = {fst (max_scan_real vs s e)} \<union> reduce_real t vs s (fst (max_scan_real vs s e)) {}"
    by (rule reduce_union)
  finally show ?thesis by auto
qed

lemma reduce_stop:
  "e \<le> s + 1 \<or> \<not> t * t < snd (max_scan_real vs s e) \<Longrightarrow> reduce_real t vs s e key = key"
  by (auto simp: reduce_real.simps [of t vs s e])

lemma reduce_range: "i \<in> reduce_real t vs s e {} \<Longrightarrow> s < i \<and> i < e"
proof (induction "e - s" arbitrary: s e i rule: less_induct)
  case less
  show ?case
  proof (cases "\<not> e \<le> s + 1 \<and> t * t < snd (max_scan_real vs s e)")
    case False
    then have "reduce_real t vs s e {} = {}" by (intro reduce_stop) auto
    with less.prems show ?thesis by simp
  next
    case True
    define im where "im = fst (max_scan_real vs s e)"
    from True have b: "s < im" "im < e"
      using max_scan_bounds [of t vs s e] by (simp_all add: im_def)
    from True less.prems have "i = im \<or> i \<in> reduce_real t vs s im {} \<or> i \<in> reduce_real t vs im e {}"
      by (auto simp: reduce_split im_def)
    then show ?thesis
    proof (elim disjE)
      assume "i = im" with b show ?thesis by simp
    next
      assume a: "i \<in> reduce_real t vs s im {}"
      from b have "im - s < e - s" by simp
      from less.hyps [OF this a] b show ?thesis by simp
    next
      assume a: "i \<in> reduce_real t vs im e {}"
      from b have "e - im < e - s" by simp
      from less.hyps [OF this a] b show ?thesis by simp
    qed
  qed
qed

lemma reduce_shift:
  assumes "\<forall>i. s \<le> i \<and> i \<le> e \<longrightarrow> ws ! i = vs ! (i + k)"
  shows "reduce_real t vs (s + k) (e + k) {} = (\<lambda>i. i + k) ` reduce_real t ws s e {}"
  using assms
proof (induction "e - s" arbitrary: s e rule: less_induct)
  case less
  have ms: "max_scan_real vs (s + k) (e + k) = (fst (max_scan_real ws s e) + k, snd (max_scan_real ws s e))"
    using less.prems by (rule max_scan_shift)
  show ?case
  proof (cases "\<not> e \<le> s + 1 \<and> t * t < snd (max_scan_real ws s e)")
    case False
    then have "reduce_real t ws s e {} = {}" by (intro reduce_stop) auto
    moreover from False ms have "reduce_real t vs (s + k) (e + k) {} = {}"
      by (intro reduce_stop) auto
    ultimately show ?thesis by simp
  next
    case True
    define im where "im = fst (max_scan_real ws s e)"
    from True have b: "s < im" "im < e"
      using max_scan_bounds [of t ws s e] by (simp_all add: im_def)
    have l: "reduce_real t vs (s + k) (im + k) {} = (\<lambda>i. i + k) ` reduce_real t ws s im {}"
      using b less.prems by (intro less.hyps) auto
    have r: "reduce_real t vs (im + k) (e + k) {} = (\<lambda>i. i + k) ` reduce_real t ws im e {}"
      using b less.prems by (intro less.hyps) auto
    from True ms have "reduce_real t vs (s + k) (e + k) {}
        = insert (im + k) (reduce_real t vs (s + k) (im + k) {} \<union> reduce_real t vs (im + k) (e + k) {})"
      by (subst reduce_split) (auto simp: im_def)
    moreover from True have "reduce_real t ws s e {} = insert im (reduce_real t ws s im {} \<union> reduce_real t ws im e {})"
      by (subst reduce_split) (auto simp: im_def)
    ultimately show ?thesis using l r by (simp add: image_Un)
  qed
qed

subsection \<open>The kept chain\<close>

lemma kept_chain_short: "length xs \<le> 2 \<Longrightarrow> kept_chain t xs = xs"
  by (simp add: kept_chain.simps [of t xs])

lemma kept_chain_stop:
  "2 < length xs \<Longrightarrow> \<not> t * t < snd (max_scan_real xs 0 (length xs - 1)) \<Longrightarrow>
   kept_chain t xs = [hd xs, last xs]"
  by (simp add: kept_chain.simps [of t xs])

lemma kept_chain_split:
  assumes "2 < length xs" "t * t < snd (max_scan_real xs 0 (length xs - 1))"
  shows "kept_chain t xs = kept_chain t (take (Suc (fst (max_scan_real xs 0 (length xs - 1)))) xs)
           @ tl (kept_chain t (drop (fst (max_scan_real xs 0 (length xs - 1))) xs))"
  using assms max_scan_bounds [OF assms(2)]
  by (simp add: kept_chain.simps [of t xs])

lemma kept_chain_ends:
  "2 \<le> length xs \<Longrightarrow>
   2 \<le> length (kept_chain t xs) \<and> hd (kept_chain t xs) = hd xs \<and> last (kept_chain t xs) = last xs"
proof (induction "length xs" arbitrary: xs rule: less_induct)
  case less
  consider "length xs = 2" | "2 < length xs" "\<not> t * t < snd (max_scan_real xs 0 (length xs - 1))"
    | "2 < length xs" "t * t < snd (max_scan_real xs 0 (length xs - 1))"
    using less.prems by linarith
  then show ?case
  proof cases
    case 1
    then show ?thesis by (simp add: kept_chain_short)
  next
    case 2
    then show ?thesis by (simp add: kept_chain_stop)
  next
    case 3
    define im where "im = fst (max_scan_real xs 0 (length xs - 1))"
    from 3 have b: "0 < im" "im < length xs - 1"
      using max_scan_bounds [of t xs 0 "length xs - 1"] by (simp_all add: im_def)
    define L R where "L = kept_chain t (take (Suc im) xs)" and "R = kept_chain t (drop im xs)"
    from 3 have eq: "kept_chain t xs = L @ tl R"
      by (simp add: kept_chain_split L_def R_def im_def)
    from b have "2 \<le> length L \<and> hd L = hd (take (Suc im) xs) \<and> last L = last (take (Suc im) xs)"
      unfolding L_def by (intro less.hyps) simp_all
    moreover from b have "2 \<le> length R \<and> hd R = hd (drop im xs) \<and> last R = last (drop im xs)"
      unfolding R_def by (intro less.hyps) simp_all
    moreover from b have "hd (take (Suc im) xs) = hd xs"
      by (cases xs) simp_all
    moreover from b have "last (drop im xs) = last xs"
      by simp
    moreover have "last (tl R) = last R" if "2 \<le> length R"
      using that by (cases R) (auto split: if_splits)
    moreover have "tl R \<noteq> []" if "2 \<le> length R"
      using that by (cases R) auto
    moreover have "L \<noteq> []" if "2 \<le> length L"
      using that by auto
    ultimately show ?thesis
      by (auto simp: eq)
  qed
qed

lemma last_take_Suc: "i < length xs \<Longrightarrow> last (take (Suc i) xs) = xs ! i"
  by (simp add: take_Suc_conv_app_nth)

lemma nth_append_tl:
  assumes "xs \<noteq> []" "0 < k" "k < length ys"
  shows "(xs @ tl ys) ! (length xs - Suc 0 + k) = ys ! k"
proof -
  from assms(1) have "0 < length xs" by simp
  with assms(2) have "length xs - Suc 0 + k = length xs + (k - 1)" by arith
  then have "(xs @ tl ys) ! (length xs - Suc 0 + k) = tl ys ! (k - 1)"
    by (simp only: nth_append_length_plus)
  also from assms(2,3) have "\<dots> = ys ! k"
    by (simp add: nth_tl)
  finally show ?thesis .
qed

lemma kept_chain_interior:
  "0 < j \<Longrightarrow> j < length (kept_chain t xs) - 1 \<Longrightarrow>
   \<exists>i. 0 < i \<and> i < length xs - 1 \<and> kept_chain t xs ! j = xs ! i"
proof (induction "length xs" arbitrary: xs j rule: less_induct)
  case less
  consider "length xs \<le> 2" | "2 < length xs" "\<not> t * t < snd (max_scan_real xs 0 (length xs - 1))"
    | "2 < length xs" "t * t < snd (max_scan_real xs 0 (length xs - 1))"
    by linarith
  then show ?case
  proof cases
    case 1
    with less.prems show ?thesis by (auto simp: kept_chain_short)
  next
    case 2
    with less.prems show ?thesis by (simp add: kept_chain_stop)
  next
    case 3
    define im where "im = fst (max_scan_real xs 0 (length xs - 1))"
    from 3 have b: "0 < im" "im < length xs - 1"
      using max_scan_bounds [of t xs 0 "length xs - 1"] by (simp_all add: im_def)
    define L R where "L = kept_chain t (take (Suc im) xs)" and "R = kept_chain t (drop im xs)"
    from 3 have eq: "kept_chain t xs = L @ tl R"
      by (simp add: kept_chain_split L_def R_def im_def)
    from b have Lends: "2 \<le> length L" "last L = last (take (Suc im) xs)"
      using kept_chain_ends [of "take (Suc im) xs" t] by (simp_all add: L_def)
    from b have Rends: "2 \<le> length R"
      using kept_chain_ends [of "drop im xs" t] by (simp_all add: R_def)
    from b have lastL: "last L = xs ! im"
      using Lends(2) by (simp add: last_take_Suc)
    from less.prems Lends Rends have jr: "j < length L + length R - 2"
      by (simp add: eq)
    consider "j < length L - 1" | "j = length L - 1" | "length L - 1 < j" by linarith
    then show ?thesis
    proof cases
      case 1
      from b have shorter: "length (take (Suc im) xs) < length xs" by simp
      from 1 have "j < length (kept_chain t (take (Suc im) xs)) - 1" by (simp add: L_def)
      from less.hyps [OF shorter less.prems(1) this]
      obtain i where i: "0 < i" "i < length (take (Suc im) xs) - 1"
        "L ! j = take (Suc im) xs ! i"
        unfolding L_def by blast
      from i b have "i < im" by simp
      moreover from 1 have "j < length L" by simp
      ultimately show ?thesis using i b
        by (intro exI [of _ i]) (simp add: eq nth_append)
    next
      case 2
      from Lends have ne: "L \<noteq> []" by auto
      from 2 Lends have "j < length L" by simp
      then have "(L @ tl R) ! j = L ! j" by (simp add: nth_append)
      also from 2 ne have "\<dots> = last L" by (simp add: last_conv_nth)
      finally have "(L @ tl R) ! j = last L" .
      with b lastL show ?thesis
        by (intro exI [of _ im]) (simp add: eq)
    next
      case 3
      define k where "k = j - (length L - 1)"
      from 3 jr Lends have k: "0 < k" "k < length R - 1" "j = length L - 1 + k"
        by (simp_all add: k_def)
      from b have shorter: "length (drop im xs) < length xs" by simp
      from k have "k < length (kept_chain t (drop im xs)) - 1" by (simp add: R_def)
      from less.hyps [OF shorter k(1) this]
      obtain i where i: "0 < i" "i < length (drop im xs) - 1" "R ! k = drop im xs ! i"
        unfolding R_def by blast
      from Lends have ne: "L \<noteq> []" by auto
      from k have "k < length R" by simp
      with ne k have "(L @ tl R) ! j = R ! k"
        by (simp add: nth_append_tl)
      then have "(L @ tl R) ! j = xs ! (im + i)"
        using i b by simp
      with i b show ?thesis
        by (intro exI [of _ "im + i"]) (auto simp: eq)
    qed
  qed
qed

lemma kept_chain_parts:
  assumes "2 < length xs" "t * t < snd (max_scan_real xs 0 (length xs - 1))"
  defines "im \<equiv> fst (max_scan_real xs 0 (length xs - 1))"
  defines "L \<equiv> kept_chain t (take (Suc im) xs)"
  defines "R \<equiv> kept_chain t (drop im xs)"
  shows "kept_chain t xs = L @ tl R" "0 < im" "im < length xs - 1"
    "2 \<le> length L" "2 \<le> length R"
    "hd L = hd xs" "last L = xs ! im" "hd R = xs ! im" "last R = last xs"
proof -
  from assms(2) show b: "0 < im" "im < length xs - 1"
    using max_scan_bounds [of t xs 0 "length xs - 1"] by (simp_all add: im_def)
  from assms(1,2) show "kept_chain t xs = L @ tl R"
    by (simp add: kept_chain_split L_def R_def im_def)
  from b have l: "2 \<le> length L \<and> hd L = hd (take (Suc im) xs) \<and> last L = last (take (Suc im) xs)"
    unfolding L_def by (intro kept_chain_ends) simp
  from b have r: "2 \<le> length R \<and> hd R = hd (drop im xs) \<and> last R = last (drop im xs)"
    unfolding R_def by (intro kept_chain_ends) simp
  from l r show "2 \<le> length L" "2 \<le> length R" by simp_all
  from b l show "hd L = hd xs" by (cases xs) simp_all
  from b l show "last L = xs ! im" by (simp add: last_take_Suc)
  from b r show "hd R = xs ! im" by (simp add: hd_drop_conv_nth)
  from b r show "last R = last xs" by simp
qed

lemma kept_chain_idem: "kept_chain t (kept_chain t xs) = kept_chain t xs"
proof (induction "length xs" arbitrary: xs rule: less_induct)
  case less
  consider "length xs \<le> 2" | "2 < length xs" "\<not> t * t < snd (max_scan_real xs 0 (length xs - 1))"
    | "2 < length xs" "t * t < snd (max_scan_real xs 0 (length xs - 1))"
    by linarith
  then show ?case
  proof cases
    case 1
    then show ?thesis by (simp add: kept_chain_short)
  next
    case 2
    then show ?thesis by (simp add: kept_chain_stop kept_chain_short)
  next
    case 3
    define n where "n = length xs"
    define im where "im = fst (max_scan_real xs 0 (length xs - 1))"
    define d where "d = snd (max_scan_real xs 0 (length xs - 1))"
    define L R where "L = kept_chain t (take (Suc im) xs)" and "R = kept_chain t (drop im xs)"
    define ch where "ch = L @ tl R"
    define m where "m = length L - Suc 0"
    note parts = kept_chain_parts [OF 3, folded im_def L_def R_def]
    have eq: "kept_chain t xs = ch" using parts(1) by (simp add: ch_def)
    have Lne: "L \<noteq> []" and Rne: "R \<noteq> []" using parts(4,5) by auto
    have xne: "xs \<noteq> []" using 3(1) by auto
    have lenCh: "length ch = length L + length R - 1"
      using parts(5) by (simp add: ch_def)
    have m: "0 < m" "m < length ch - 1" "Suc m = length L"
      using parts(4,5) by (simp_all add: m_def lenCh)
    have ch0: "ch ! 0 = xs ! 0"
      using Lne xne parts(6) by (simp add: ch_def nth_append hd_conv_nth)
    have "last ch = last xs"
      using parts(5,9) by (cases R) (auto simp: ch_def split: if_splits)
    then have chE: "ch ! (length ch - 1) = xs ! (length xs - 1)"
      using Lne xne by (simp add: last_conv_nth ch_def)
    have chM: "ch ! m = xs ! im"
    proof -
      have "ch ! m = L ! m" using m(3) by (simp add: ch_def nth_append)
      also have "\<dots> = last L" using Lne by (simp add: last_conv_nth m_def)
      finally show ?thesis using parts(7) by simp
    qed
    have "0 \<le> t * t" by simp
    with 3(2) have "max_scan_real xs 0 (length xs - 1) \<noteq> (0, 0)" by auto
    with max_scan_cases [of xs 0 "length xs - 1"]
    have dm: "d = seg_dist_real (xs ! 0) (xs ! (length xs - 1)) (xs ! im)" and dpos: "0 < d"
      and before: "\<forall>i. 0 < i \<and> i < im \<longrightarrow> seg_dist_real (xs ! 0) (xs ! (length xs - 1)) (xs ! i) < d"
      and all: "\<forall>i. 0 < i \<and> i < length xs - 1 \<longrightarrow> seg_dist_real (xs ! 0) (xs ! (length xs - 1)) (xs ! i) \<le> d"
      unfolding im_def d_def by blast+
    have left: "seg_dist_real (xs ! 0) (xs ! (length xs - 1)) (ch ! i) < d" if "0 < i" "i < m" for i
    proof -
      from parts(3) have shorter: "length (take (Suc im) xs) < length xs" by simp
      from that m have "i < length (kept_chain t (take (Suc im) xs)) - 1"
        by (simp add: L_def m_def)
      from kept_chain_interior [OF that(1) this]
      obtain i' where i': "0 < i'" "i' < length (take (Suc im) xs) - 1" "L ! i = take (Suc im) xs ! i'"
        unfolding L_def by blast
      from i' parts(3) have "i' < im" by simp
      moreover from that m have "ch ! i = L ! i" by (simp add: ch_def nth_append)
      ultimately show ?thesis using i' before by simp
    qed
    have right: "seg_dist_real (xs ! 0) (xs ! (length xs - 1)) (ch ! i) \<le> d" if "m < i" "i < length ch - 1" for i
    proof -
      define k where "k = i - m"
      from that have k: "0 < k" "i = length L - Suc 0 + k" by (simp_all add: k_def m_def)
      from that parts(4,5) have kR: "k < length R - 1" by (simp add: k_def m_def lenCh)
      then have "k < length (kept_chain t (drop im xs)) - 1" by (simp add: R_def)
      from kept_chain_interior [OF k(1) this]
      obtain i' where i': "0 < i'" "i' < length (drop im xs) - 1" "R ! k = drop im xs ! i'"
        unfolding R_def by blast
      from kR have "k < length R" by simp
      with Lne k have "ch ! i = R ! k" by (simp add: ch_def nth_append_tl)
      with i' parts(3) have "ch ! i = xs ! (im + i')" by simp
      moreover from i' parts(2,3) have "0 < im + i' \<and> im + i' < length xs - 1" by simp
      ultimately show ?thesis using all by simp
    qed
    have scanCh: "max_scan_real ch 0 (length ch - 1) = (m, d)"
    proof -
      define a b where "a = xs ! 0" and "b = xs ! (length xs - 1)"
      define e where "e = length ch - 1"
      have ends: "ch ! 0 = a" "ch ! e = b" "ch ! m = xs ! im"
        using ch0 chE chM by (simp_all add: a_def b_def e_def)
      have dist_m: "seg_dist_real a b (xs ! im) = d"
        using dm by (simp add: a_def b_def)
      have l: "\<forall>i. 0 < i \<and> i < m \<longrightarrow> seg_dist_real a b (ch ! i) < d"
        using left by (simp add: a_def b_def)
      have r: "\<forall>i. m < i \<and> i < e \<longrightarrow> seg_dist_real a b (ch ! i) \<le> d"
        using right by (simp add: a_def b_def e_def)
      have "m < e" using m(2) by (simp add: e_def)
      with m(1) have "max_scan_real ch 0 e = (m, seg_dist_real (ch ! 0) (ch ! e) (ch ! m))"
        using l r dpos by (intro max_scan_eq) (simp_all add: ends dist_m)
      then have "max_scan_real ch 0 e = (m, d)" by (simp add: ends dist_m)
      then show ?thesis by (simp only: e_def)
    qed
    have long: "2 < length ch" using parts(4,5) by (simp add: lenCh)
    have big: "t * t < snd (max_scan_real ch 0 (length ch - 1))"
      using 3(2) by (simp only: scanCh d_def snd_conv)
    have "kept_chain t ch = kept_chain t (take (Suc m) ch) @ tl (kept_chain t (drop m ch))"
      using kept_chain_split [OF long big] by (simp only: scanCh fst_conv)
    moreover have "take (Suc m) ch = L"
      using m(3) by (simp add: ch_def)
    moreover have "drop m ch = R"
    proof -
      have "drop m ch = drop m L @ tl R" using m(3) by (simp add: ch_def)
      also have "drop m L = [last L]"
        using Lne m(3) by (metis append_butlast_last_id append_eq_conv_conj diff_Suc_1 length_butlast)
      also have "[last L] @ tl R = R"
        using Rne parts(7,8) by (cases R) simp_all
      finally show ?thesis .
    qed
    moreover have "kept_chain t L = L"
      unfolding L_def using parts(3) by (intro less.hyps) simp
    moreover have "kept_chain t R = R"
      unfolding R_def using parts(2) xne by (intro less.hyps) simp
    ultimately show ?thesis by (simp add: eq ch_def)
  qed
qed

subsection \<open>\<open>reduce\<close> marks the kept chain\<close>

lemma nths_cong_lt:
  assumes "\<And>i. i < length xs \<Longrightarrow> (i \<in> A) = (i \<in> B)"
  shows "nths xs A = nths xs B"
proof -
  have "filter (\<lambda>p. snd p \<in> A) (zip xs [0..<length xs]) = filter (\<lambda>p. snd p \<in> B) (zip xs [0..<length xs])"
    using assms by (intro filter_cong refl) (auto dest: set_zip_rightD)
  then show ?thesis by (simp add: nths_def)
qed

lemma nths_last_only: "ys \<noteq> [] \<Longrightarrow> nths ys {length ys - Suc 0} = [last ys]"
proof -
  assume ys: "ys \<noteq> []"
  have "nths (butlast ys) {length ys - Suc 0} = nths (butlast ys) {}"
    by (rule nths_cong_lt) simp
  then have "nths (butlast ys @ [last ys]) {length ys - Suc 0} = [last ys]"
    by (simp add: nths_append)
  with ys show ?thesis by simp
qed

lemma nths_ends: "2 \<le> length xs \<Longrightarrow> nths xs {0, length xs - Suc 0} = [hd xs, last xs]"
proof -
  assume len: "2 \<le> length xs"
  then obtain a ys where xs: "xs = a # ys" by (cases xs) auto
  with len have ys: "ys \<noteq> []" by auto
  then have "{j. Suc j \<in> {0, length ys}} = {length ys - Suc 0}"
    by (cases ys) auto
  with ys show ?thesis
    by (simp add: xs nths_Cons nths_last_only)
qed

lemma reduce_kept_chain:
  "xs \<noteq> [] \<Longrightarrow>
   nths xs ({0, length xs - 1} \<union> reduce_real t xs 0 (length xs - 1) {}) = kept_chain t xs"
proof (induction "length xs" arbitrary: xs rule: less_induct)
  case less
  consider "length xs \<le> 2" | "2 < length xs" "\<not> t * t < snd (max_scan_real xs 0 (length xs - 1))"
    | "2 < length xs" "t * t < snd (max_scan_real xs 0 (length xs - 1))"
    by linarith
  then show ?case
  proof cases
    case 1
    then have "length xs - 1 \<le> 0 + 1" by simp
    then have "reduce_real t xs 0 (length xs - 1) {} = {}"
      by (intro reduce_stop disjI1)
    moreover from 1 less.prems have "nths xs {0, length xs - 1} = xs"
      by (intro nths_all) auto
    ultimately show ?thesis using 1 by (simp add: kept_chain_short)
  next
    case 2
    then have "reduce_real t xs 0 (length xs - 1) {} = {}"
      by (intro reduce_stop) simp
    with 2 show ?thesis by (simp add: kept_chain_stop nths_ends)
  next
    case 3
    define n1 where "n1 = length xs - 1"
    define im where "im = fst (max_scan_real xs 0 (length xs - 1))"
    define l1 l2 l3 where "l1 = take (Suc im) xs" and "l2 = drop (Suc im) xs" and "l3 = drop im xs"
    define D1 D2 D2' where "D1 = reduce_real t xs 0 im {}" and "D2 = reduce_real t xs im n1 {}"
      and "D2' = reduce_real t l3 0 (n1 - im) {}"
    define A where "A = {0, n1} \<union> insert im (D1 \<union> D2)"
    define B where "B = {0, n1 - im} \<union> D2'"
    note parts = kept_chain_parts [OF 3, folded im_def, folded l1_def l3_def]
    have b: "0 < im" "im < n1" "n1 < length xs"
      using parts(2,3) 3(1) by (simp_all add: n1_def)
    have len1: "length l1 = Suc im" and len3: "length l3 - 1 = n1 - im"
      using b by (simp_all add: l1_def l3_def n1_def)
    have split: "reduce_real t xs 0 n1 {} = insert im (D1 \<union> D2)"
      using 3 b reduce_split [of n1 0 t xs] by (simp add: n1_def im_def D1_def D2_def)
    have D1_eq: "reduce_real t l1 0 im {} = D1"
    proof -
      have "reduce_real t xs (0 + 0) (im + 0) {} = (\<lambda>i. i + 0) ` reduce_real t l1 0 im {}"
        by (intro reduce_shift) (simp add: l1_def)
      then show ?thesis by (simp add: D1_def)
    qed
    have D2_eq: "D2 = (\<lambda>i. i + im) ` D2'"
    proof -
      have "reduce_real t xs (0 + im) ((n1 - im) + im) {} = (\<lambda>i. i + im) ` reduce_real t l3 0 (n1 - im) {}"
        using b by (intro reduce_shift) (simp add: l3_def add.commute)
      with b show ?thesis by (simp add: D2_def D2'_def)
    qed
    have D1_range: "\<And>i. i \<in> D1 \<Longrightarrow> 0 < i \<and> i < im"
      unfolding D1_def by (rule reduce_range)
    have D2_range: "\<And>i. i \<in> D2 \<Longrightarrow> im < i \<and> i < n1"
      unfolding D2_def by (rule reduce_range)
    have xs_split: "xs = l1 @ l2" by (simp add: l1_def l2_def)
    have l3_cons: "l3 = xs ! im # l2"
      using b by (simp add: l3_def l2_def Cons_nth_drop_Suc)
    have "nths l1 A = nths l1 ({0, length l1 - 1} \<union> reduce_real t l1 0 (length l1 - 1) {})"
    proof (rule nths_cong_lt)
      fix i assume "i < length l1"
      then have "i \<le> im" by (simp add: len1)
      with b show "(i \<in> A) = (i \<in> {0, length l1 - 1} \<union> reduce_real t l1 0 (length l1 - 1) {})"
        by (auto simp: A_def len1 D1_eq dest: D1_range D2_range)
    qed
    also have "\<dots> = kept_chain t l1"
      using b less.prems by (intro less.hyps) (simp_all add: l1_def)
    finally have left: "nths l1 A = kept_chain t l1" .
    have "nths l3 B = kept_chain t l3"
    proof -
      have short: "length l3 < length xs" using b by (simp add: l3_def)
      have ne: "l3 \<noteq> []" using b by (simp add: l3_def)
      from less.hyps [OF short ne] show ?thesis
        by (simp only: len3 B_def D2'_def)
    qed
    then have "tl (kept_chain t l3) = tl (nths l3 B)"
      by simp
    also have "\<dots> = nths l2 {j. Suc j \<in> B}"
      by (simp add: l3_cons nths_Cons B_def)
    also have "\<dots> = nths l2 {j. j + length l1 \<in> A}"
    proof (rule nths_cong_lt)
      fix j assume "j < length l2"
      have "(Suc j + im \<in> D2) = (Suc j \<in> D2')"
        by (auto simp: D2_eq)
      moreover have "Suc j + im \<notin> D1" "Suc j + im \<noteq> im" "Suc j + im \<noteq> 0"
        by (auto dest: D1_range)
      moreover have "(Suc j + im = n1) = (Suc j = n1 - im)"
        using b by auto
      ultimately show "(j \<in> {j. Suc j \<in> B}) = (j \<in> {j. j + length l1 \<in> A})"
        by (simp add: A_def B_def len1)
    qed
    finally have right: "nths l2 {j. j + length l1 \<in> A} = tl (kept_chain t l3)" by simp
    have "nths xs A = nths l1 A @ nths l2 {j. j + length l1 \<in> A}"
      by (subst xs_split) (rule nths_append)
    with left right parts(1) have "nths xs A = kept_chain t xs" by simp
    moreover have "A = {0, length xs - 1} \<union> reduce_real t xs 0 (length xs - 1) {}"
      unfolding A_def split [symmetric] by (simp only: n1_def)
    ultimately show ?thesis by simp
  qed
qed

subsection \<open>The kept chain passes the radial filter unchanged\<close>

lemma two_list: "length xs = 2 \<Longrightarrow> xs = [hd xs, last xs]"
  by (cases xs; cases "tl xs") auto

lemma kept_chain_spaced:
  "2 < length (kept_chain t xs) \<Longrightarrow>
   successively (\<lambda>u v. t * t < magDiff2vec_real v u) (kept_chain t xs)"
proof (induction "length xs" arbitrary: xs rule: less_induct)
  case less
  let ?P = "\<lambda>u v. t * t < magDiff2vec_real v u"
  consider "length xs \<le> 2" | "2 < length xs" "\<not> t * t < snd (max_scan_real xs 0 (length xs - 1))"
    | "2 < length xs" "t * t < snd (max_scan_real xs 0 (length xs - 1))"
    by linarith
  then show ?case
  proof cases
    case 1
    with less.prems show ?thesis by (simp add: kept_chain_short)
  next
    case 2
    with less.prems show ?thesis by (simp add: kept_chain_stop)
  next
    case 3
    define im where "im = fst (max_scan_real xs 0 (length xs - 1))"
    define d where "d = snd (max_scan_real xs 0 (length xs - 1))"
    define L R where "L = kept_chain t (take (Suc im) xs)" and "R = kept_chain t (drop im xs)"
    note parts = kept_chain_parts [OF 3, folded im_def L_def R_def]
    have xne: "xs \<noteq> []" using 3(1) by auto
    have "0 \<le> t * t" by simp
    with 3(2) have "max_scan_real xs 0 (length xs - 1) \<noteq> (0, 0)" by auto
    with max_scan_cases [of xs 0 "length xs - 1"]
    have dm: "d = seg_dist_real (xs ! 0) (xs ! (length xs - 1)) (xs ! im)"
      unfolding im_def d_def by blast
    from 3(2) have big: "t * t < d" by (simp add: d_def)
    have far0: "t * t < magDiff2vec_real (xs ! im) (xs ! 0)"
      using big seg_dist_le_ends [of "xs ! 0" "xs ! (length xs - 1)" "xs ! im"]
      by (simp add: dm)
    have far1: "t * t < magDiff2vec_real (last xs) (xs ! im)"
    proof -
      have "d \<le> magDiff2vec_real (xs ! im) (xs ! (length xs - 1))"
        using seg_dist_le_ends [of "xs ! 0" "xs ! (length xs - 1)" "xs ! im"] by (simp add: dm)
      also have "\<dots> = magDiff2vec_real (xs ! (length xs - 1)) (xs ! im)"
        by (rule magDiff2vec_sym)
      also have "xs ! (length xs - 1) = last xs"
        using xne by (simp add: last_conv_nth)
      finally show ?thesis using big by simp
    qed
    have sL: "successively ?P L"
    proof (cases "2 < length L")
      case True
      then show ?thesis
        unfolding L_def using parts(3) by (intro less.hyps) simp_all
    next
      case False
      with parts(4) have "length L = 2" by simp
      then have "L = [hd L, last L]" by (rule two_list)
      then have "L = [xs ! 0, xs ! im]"
        using parts(6,7) xne by (simp add: hd_conv_nth)
      with far0 show ?thesis by (simp del: One_nat_def)
    qed
    have sR: "successively ?P R"
    proof (cases "2 < length R")
      case True
      then show ?thesis
        unfolding R_def using parts(2) xne by (intro less.hyps) simp_all
    next
      case False
      with parts(5) have "length R = 2" by simp
      then have "R = [hd R, last R]" by (rule two_list)
      then have "R = [xs ! im, last xs]"
        using parts(8,9) by simp
      with far1 show ?thesis by (simp del: One_nat_def)
    qed
    from parts(5) obtain r rs where R: "R = r # rs" and rs: "rs \<noteq> []"
      by (cases R; cases "tl R") auto
    from parts(4) have Lne: "L \<noteq> []" by auto
    from parts(7,8) R have "last L = r" by simp
    with sL sR rs Lne have "successively ?P (L @ tl R)"
      by (simp add: R successively_append_iff successively_Cons)
    with parts(1) show ?thesis by simp
  qed
qed

lemma successively_nth:
  "successively P xs \<Longrightarrow> Suc i < length xs \<Longrightarrow> P (xs ! i) (xs ! Suc i)"
proof (induction xs arbitrary: i)
  case Nil
  then show ?case by simp
next
  case (Cons a xs)
  then show ?case
    by (cases i; cases xs) (auto simp: successively_Cons)
qed

lemma radial_fold_keeps_all:
  assumes "successively (\<lambda>u v. \<not> magDiff2vec_real v u < t2) xs"
  shows "Suc m \<le> length xs \<Longrightarrow>
         fold (radial_step_real t2 xs) [1..<Suc m] ([xs ! 0], 0) = (take (Suc m) xs, m)"
proof (induction m)
  case 0
  then show ?case by (cases xs) simp_all
next
  case (Suc m)
  from Suc.prems have far: "\<not> magDiff2vec_real (xs ! Suc m) (xs ! m) < t2"
    using successively_nth [OF assms, of m] by simp
  from Suc have IH: "fold (radial_step_real t2 xs) [1..<Suc m] ([xs ! 0], 0) = (take (Suc m) xs, m)"
    by simp
  have "[1..<Suc (Suc m)] = [1..<Suc m] @ [Suc m]" by simp
  then have "fold (radial_step_real t2 xs) [1..<Suc (Suc m)] ([xs ! 0], 0)
      = radial_step_real t2 xs (Suc m) (fold (radial_step_real t2 xs) [1..<Suc m] ([xs ! 0], 0))"
    by (simp only: fold_append fold_simps comp_def id_apply)
  also have "\<dots> = radial_step_real t2 xs (Suc m) (take (Suc m) xs, m)"
    by (simp only: IH)
  also have "\<dots> = (take (Suc m) xs @ [xs ! Suc m], Suc m)"
    using far by (simp add: radial_step_real_def)
  also have "take (Suc m) xs @ [xs ! Suc m] = take (Suc (Suc m)) xs"
    using Suc.prems by (simp add: take_Suc_conv_app_nth [of "Suc m"])
  finally show ?case .
qed

lemma radial_filter_spaced:
  assumes "xs \<noteq> []" "successively (\<lambda>u v. \<not> magDiff2vec_real v u < t2) xs"
  shows "radial_filter_real t2 xs = xs"
proof -
  from assms(1) obtain m where m: "length xs = Suc m" by (cases xs) auto
  then have "fold (radial_step_real t2 xs) [1..<length xs] ([xs ! 0], 0) = (xs, m)"
    using radial_fold_keeps_all [OF assms(2), of m] by simp
  with m show ?thesis by (simp add: radial_filter_real_def)
qed

lemma radial_filter_short:
  assumes "xs \<noteq> []" "length xs \<le> 2"
  shows "radial_filter_real t2 xs = xs"
proof -
  from assms consider a where "xs = [a]" | a b where "xs = [a, b]"
    by (cases xs; cases "tl xs") auto
  then show ?thesis
    by cases (simp_all add: radial_filter_real_def radial_step_real_def)
qed

lemma radial_filter_nonempty: "radial_filter_real t2 xs \<noteq> []"
proof -
  have "fst (fold (radial_step_real t2 xs) js st) \<noteq> []" if "fst st \<noteq> []" for js st
    using that by (induction js arbitrary: st) (auto simp: radial_step_real_def)
  then show ?thesis
    by (simp add: radial_filter_real_def Let_def)
qed

lemma kept_chain_nonempty: "xs \<noteq> [] \<Longrightarrow> kept_chain t xs \<noteq> []"
proof (cases "length xs \<le> 2")
  case True
  assume "xs \<noteq> []"
  with True show ?thesis by (simp add: kept_chain_short)
next
  case False
  then have "2 \<le> length (kept_chain t xs)"
    using kept_chain_ends [of xs t] by simp
  then show ?thesis by auto
qed

lemma simplify_kept_chain:
  "p \<noteq> [] \<Longrightarrow> simplify_real t p = Inr (kept_chain t (radial_filter_real (t * t) p))"
proof -
  assume "p \<noteq> []"
  let ?F = "radial_filter_real (t * t) p"
  have "reduce_real t ?F 0 (length ?F - 1) {0, length ?F - 1}
        = {0, length ?F - 1} \<union> reduce_real t ?F 0 (length ?F - 1) {}"
    by (rule reduce_union)
  then have "nths ?F (reduce_real t ?F 0 (length ?F - 1) {0, length ?F - 1}) = kept_chain t ?F"
    using reduce_kept_chain [OF radial_filter_nonempty, of "t * t" p t] by simp
  with \<open>p \<noteq> []\<close> show ?thesis
    by (simp add: simplify_real_def Let_def)
qed

text \<open>
  Over the real numbers a second run with the same tolerance gives the result of the
  first (on a polygon without vertices both runs end with the same TypeError).
\<close>

lemma simplify_real_idempotent: "simplify_twice_real t p = simplify_real t p"
proof (cases "p = []")
  case True
  then show ?thesis by (simp add: simplify_twice_real_def simplify_real_def)
next
  case False
  define q where "q = kept_chain t (radial_filter_real (t * t) p)"
  have first: "simplify_real t p = Inr q"
    using False by (simp add: simplify_kept_chain q_def)
  have qne: "q \<noteq> []"
    unfolding q_def by (intro kept_chain_nonempty radial_filter_nonempty)
  have filt: "radial_filter_real (t * t) q = q"
  proof (cases "length q \<le> 2")
    case True
    with qne show ?thesis by (rule radial_filter_short)
  next
    case False
    then have "successively (\<lambda>u v. t * t < magDiff2vec_real v u) q"
      unfolding q_def by (intro kept_chain_spaced) simp
    then have "successively (\<lambda>u v. \<not> magDiff2vec_real v u < t * t) q"
      by (rule successively_mono) simp
    with qne show ?thesis by (rule radial_filter_spaced)
  qed
  have "simplify_real t q = Inr (kept_chain t q)"
    using qne by (simp add: simplify_kept_chain filt)
  also have "kept_chain t q = q"
    by (simp add: q_def kept_chain_idem)
  finally show ?thesis
    by (simp add: simplify_twice_real_def first)
qed

section \<open>\<open>simplify\<close> in exact arithmetic is \<open>simplify\<close> over the reals\<close>

lemma diff2vec_Exact: "diff2vec Exact (coords a) (coords b) = coords (diff2vec_real a b)"
  by (simp add: diff2vec_def coords_def diff2vec_real_def Fin_sub)

lemma mag2vec_Exact: "mag2vec Exact (coords a) = Fin (mag2vec_real a)"
  by (simp add: mag2vec_def coords_def mag2vec_real_def Fin_square Fin_add)

lemma magDiff2vec_Exact: "magDiff2vec Exact (coords a) (coords b) = Fin (magDiff2vec_real a b)"
  by (simp add: magDiff2vec_def magDiff2vec_real_def diff2vec_Exact mag2vec_Exact)

lemma dot2vec_Exact:
  "dot2vec Exact (coords a) (coords b) = Fin (dot2vec_real a b) \<or>
   (dot2vec Exact (coords a) (coords b) = NegZero \<and> dot2vec_real a b = 0)"
  using Fin_times_cases [of "fst a" "fst b"] Fin_times_cases [of "snd a" "snd b"]
  by (auto simp: dot2vec_def coords_def dot2vec_real_def Fin_add plus_jsnum_def)

lemma perpBase_Exact:
  assumes "0 < r"
  shows "Fin s + Fin r * Fin d = Fin (s + r * d)"
  using assms by (simp add: times_jsnum_def jmul_def signed_zero_def Fin_add)

lemma seg_dist_Exact: "seg_dist Exact a b v = Fin (seg_dist_real a b v)"
proof -
  define d where "d = diff2vec_real b a"
  define w where "w = diff2vec_real v a"
  from dot2vec_Exact [of w d] show ?thesis
  proof
    assume dot: "dot2vec Exact (coords w) (coords d) = Fin (dot2vec_real w d)"
    show ?thesis
    proof (cases "dot2vec_real w d \<le> 0 \<or> mag2vec_real d \<le> dot2vec_real w d")
      case True
      then show ?thesis
        by (auto simp: seg_dist_def seg_dist_real_def Let_def diff2vec_Exact mag2vec_Exact
            magDiff2vec_Exact dot d_def [symmetric] w_def [symmetric] Fin_le)
    next
      case False
      then have pos: "0 < dot2vec_real w d" "0 < mag2vec_real d" "0 < dot2vec_real w d / mag2vec_real d"
        by simp_all
      have base: "(Fin (fst a) + Fin (dot2vec_real w d / mag2vec_real d) * fst (coords d),
          Fin (snd a) + Fin (dot2vec_real w d / mag2vec_real d) * snd (coords d))
          = coords (fst a + dot2vec_real w d / mag2vec_real d * fst d,
                    snd a + dot2vec_real w d / mag2vec_real d * snd d)"
        using perpBase_Exact [OF pos(3)] by (simp add: coords_def)
      from False pos show ?thesis
        by (simp add: seg_dist_def seg_dist_real_def Let_def diff2vec_Exact mag2vec_Exact
            dot d_def [symmetric] w_def [symmetric] Fin_le Fin_div base magDiff2vec_Exact)
    qed
  next
    assume dot: "dot2vec Exact (coords w) (coords d) = NegZero \<and> dot2vec_real w d = 0"
    then show ?thesis
      by (simp add: seg_dist_def seg_dist_real_def Let_def diff2vec_Exact mag2vec_Exact
          magDiff2vec_Exact d_def [symmetric] w_def [symmetric] less_eq_jsnum_def jle_def)
  qed
qed

lemma scan_fold_Exact:
  "fold (scan_step Exact vs s e) js (i, Fin r)
   = (fst (fold (scan_step_real vs s e) js (i, r)), Fin (snd (fold (scan_step_real vs s e) js (i, r))))"
proof (induction js arbitrary: i r)
  case Nil
  show ?case by simp
next
  case (Cons j js)
  have "scan_step Exact vs s e j (i, Fin r)
      = (fst (scan_step_real vs s e j (i, r)), Fin (snd (scan_step_real vs s e j (i, r))))"
    by (simp add: scan_step_def scan_step_real_def seg_dist_Exact Fin_le)
  with Cons.IH [of "fst (scan_step_real vs s e j (i, r))" "snd (scan_step_real vs s e j (i, r))"]
  show ?case by simp
qed

lemma max_scan_Exact:
  "max_scan Exact vs s e = (fst (max_scan_real vs s e), Fin (snd (max_scan_real vs s e)))"
  by (simp add: max_scan_def max_scan_real_def scan_fold_Exact)

lemma reduce_Exact: "reduce Exact t vs s e key = reduce_real t vs s e key"
proof (induction t vs s e key rule: reduce_real.induct)
  case (1 t vs s e key)
  show ?case
  proof (cases "\<not> e \<le> s + 1 \<and> t * t < snd (max_scan_real vs s e)")
    case True
    with 1 show ?thesis
      by (simp add: reduce.simps [of Exact t vs s e] reduce_real.simps [of t vs s e]
          max_scan_Exact Fin_square Fin_less)
  next
    case False
    then show ?thesis
      by (auto simp: reduce.simps [of Exact t vs s e] reduce_real.simps [of t vs s e]
          max_scan_Exact Fin_square Fin_less)
  qed
qed

lemma radial_filter_Exact: "radial_filter Exact (Fin t2) p = radial_filter_real t2 p"
proof -
  have "radial_step Exact (Fin t2) p = radial_step_real t2 p"
    by (intro ext) (simp add: radial_step_def radial_step_real_def magDiff2vec_Exact Fin_less)
  then show ?thesis
    by (simp add: radial_filter_def radial_filter_real_def)
qed

lemma simplify_Exact: "simplify Exact t p = simplify_real t p"
  by (simp add: simplify_def simplify_real_def Fin_square radial_filter_Exact reduce_Exact)

lemma simplify_twice_Exact: "simplify_twice Exact t p = simplify_twice_real t p"
  by (simp add: simplify_twice_def simplify_twice_real_def simplify_Exact split: sum.splits)

section \<open>A second run of \<open>simplify\<close>\<close>

subsection \<open>In every arithmetic the result is a subsequence with the same ends\<close>

lemma radial_fold_subseq:
  assumes "p \<noteq> []"
  shows "Suc b \<le> length p \<Longrightarrow>
         snd (fold (radial_step m t2 p) [1..<Suc b] ([p ! 0], 0)) \<le> b \<and>
         subseq (fst (fold (radial_step m t2 p) [1..<Suc b] ([p ! 0], 0)))
           (take (Suc (snd (fold (radial_step m t2 p) [1..<Suc b] ([p ! 0], 0)))) p) \<and>
         fst (fold (radial_step m t2 p) [1..<Suc b] ([p ! 0], 0)) \<noteq> [] \<and>
         hd (fst (fold (radial_step m t2 p) [1..<Suc b] ([p ! 0], 0))) = p ! 0 \<and>
         last (fst (fold (radial_step m t2 p) [1..<Suc b] ([p ! 0], 0)))
           = p ! snd (fold (radial_step m t2 p) [1..<Suc b] ([p ! 0], 0))"
proof (induction b)
  case 0
  from assms have "take (Suc 0) p = [p ! 0]"
    by (cases p) simp_all
  then show ?case by simp
next
  case (Suc b)
  define st where "st = fold (radial_step m t2 p) [1..<Suc b] ([p ! 0], 0)"
  from Suc have IH: "snd st \<le> b" "subseq (fst st) (take (Suc (snd st)) p)" "fst st \<noteq> []"
    "hd (fst st) = p ! 0" "last (fst st) = p ! snd st"
    by (simp_all add: st_def)
  have "[1..<Suc (Suc b)] = [1..<Suc b] @ [Suc b]" by simp
  then have next_st: "fold (radial_step m t2 p) [1..<Suc (Suc b)] ([p ! 0], 0)
      = radial_step m t2 p (Suc b) st"
    by (simp only: fold_append fold_simps comp_def id_apply st_def)
  show ?case
  proof (cases "radial_step m t2 p (Suc b) st = st")
    case True
    from IH show ?thesis
      unfolding next_st True by simp
  next
    case False
    then have new: "radial_step m t2 p (Suc b) st = (fst st @ [p ! Suc b], Suc b)"
      by (auto simp: radial_step_def split: if_splits)
    from IH(1) have "take (Suc (snd st)) p = take (Suc (snd st)) (take (Suc b) p)"
      by (simp add: min_def)
    then have "prefix (take (Suc (snd st)) p) (take (Suc b) p)"
      by (metis take_is_prefix)
    with IH(2) have "subseq (fst st) (take (Suc b) p)"
      by (meson prefix_imp_subseq subseq_order.order_trans)
    then have "subseq (fst st @ [p ! Suc b]) (take (Suc b) p @ [p ! Suc b])"
      by simp
    moreover from Suc.prems have "take (Suc (Suc b)) p = take (Suc b) p @ [p ! Suc b]"
      by (simp add: take_Suc_conv_app_nth [of "Suc b"])
    ultimately show ?thesis
      unfolding next_st new using IH(3,4) by simp
  qed
qed

lemma radial_filter_subseq:
  assumes "p \<noteq> []"
  shows "subseq (radial_filter m t2 p) p \<and> radial_filter m t2 p \<noteq> [] \<and>
         hd (radial_filter m t2 p) = hd p \<and> last (radial_filter m t2 p) = last p"
proof -
  from assms obtain b where b: "length p = Suc b" by (cases p) auto
  define st where "st = fold (radial_step m t2 p) [1..<Suc b] ([p ! 0], 0)"
  from b have "Suc b \<le> length p" by simp
  from radial_fold_subseq [OF assms this, of m t2]
  have inv: "snd st \<le> b" "subseq (fst st) (take (Suc (snd st)) p)" "fst st \<noteq> []"
    "hd (fst st) = p ! 0" "last (fst st) = p ! snd st"
    unfolding st_def by blast+
  have rf: "radial_filter m t2 p = (if snd st + 1 < Suc b then fst st @ [p ! b] else fst st)"
    unfolding radial_filter_def Let_def st_def b by simp
  from assms have hd0: "p ! 0 = hd p" by (simp add: hd_conv_nth)
  from assms b have lastb: "p ! b = last p" by (simp add: last_conv_nth)
  show ?thesis
  proof (cases "snd st + 1 < length p")
    case True
    then have F: "radial_filter m t2 p = fst st @ [p ! b]"
      using b by (simp add: rf)
    from True b have "Suc (snd st) \<le> b" by simp
    then have "take (Suc (snd st)) p = take (Suc (snd st)) (take b p)"
      by (simp add: min_def)
    then have "prefix (take (Suc (snd st)) p) (take b p)"
      by (metis take_is_prefix)
    with inv(2) have "subseq (fst st) (take b p)"
      by (meson prefix_imp_subseq subseq_order.order_trans)
    then have "subseq (fst st @ [p ! b]) (take b p @ [p ! b])"
      by simp
    moreover from b have "take b p @ [p ! b] = p"
      by (metis lessI order_refl take_Suc_conv_app_nth take_all)
    ultimately have "subseq (fst st @ [p ! b]) p"
      by (simp only:)
    then show ?thesis
      using inv(3,4) by (simp add: F hd0 lastb)
  next
    case False
    then have F: "radial_filter m t2 p = fst st"
      using b by (simp add: rf)
    from False inv(1) b have "snd st = b" by simp
    with inv b show ?thesis
      by (simp add: F hd0 lastb)
  qed
qed

lemma reduce_keeps_marks: "key \<subseteq> reduce m t vs s e key"
proof (induction m t vs s e key rule: reduce.induct)
  case (1 m t vs s e key)
  show ?case
  proof (cases "\<not> e \<le> s + 1 \<and> fl m (Fin t * Fin t) < snd (max_scan m vs s e)")
    case True
    with 1 have "insert (fst (max_scan m vs s e)) key
        \<subseteq> reduce m t vs s (fst (max_scan m vs s e)) (insert (fst (max_scan m vs s e)) key)"
      and "reduce m t vs s (fst (max_scan m vs s e)) (insert (fst (max_scan m vs s e)) key)
        \<subseteq> reduce m t vs (fst (max_scan m vs s e)) e
            (reduce m t vs s (fst (max_scan m vs s e)) (insert (fst (max_scan m vs s e)) key))"
      by simp_all
    then have "key \<subseteq> reduce m t vs (fst (max_scan m vs s e)) e
            (reduce m t vs s (fst (max_scan m vs s e)) (insert (fst (max_scan m vs s e)) key))"
      by blast
    with True show ?thesis
      by (simp add: reduce.simps [of m t vs s e])
  next
    case False
    then show ?thesis
      by (auto simp: reduce.simps [of m t vs s e])
  qed
qed

lemma nths_keeps_ends:
  assumes "xs \<noteq> []" "0 \<in> I" "length xs - Suc 0 \<in> I"
  shows "subseq (nths xs I) xs \<and> nths xs I \<noteq> [] \<and> hd (nths xs I) = hd xs \<and>
         last (nths xs I) = last xs"
proof -
  from assms(1) obtain a ys where xs: "xs = a # ys" by (cases xs) auto
  from assms(1) have split: "xs = butlast xs @ [last xs]" by simp
  have "nths (butlast xs @ [last xs]) I
      = nths (butlast xs) I @ nths [last xs] {j. j + length (butlast xs) \<in> I}"
    by (rule nths_append)
  also have "nths [last xs] {j. j + length (butlast xs) \<in> I} = [last xs]"
    using assms(3) by simp
  finally have "nths xs I = nths (butlast xs) I @ [last xs]"
    using split by simp
  then have "last (nths xs I) = last xs" "nths xs I \<noteq> []"
    by simp_all
  moreover from assms(2) have "hd (nths xs I) = hd xs"
    by (simp add: xs nths_Cons)
  moreover have "subseq (nths xs I) xs"
    using subseq_conv_nths by blast
  ultimately show ?thesis by simp
qed

lemma simplify_subseq:
  assumes "p \<noteq> []"
  shows "\<exists>q. simplify m t p = Inr q \<and> subseq q p \<and> q \<noteq> [] \<and> hd q = hd p \<and> last q = last p"
proof -
  define F where "F = radial_filter m (fl m (Fin t * Fin t)) p"
  define key where "key = reduce m t F 0 (length F - 1) {0, length F - 1}"
  from radial_filter_subseq [OF assms, of m "fl m (Fin t * Fin t)"]
  have F: "subseq F p" "F \<noteq> []" "hd F = hd p" "last F = last p"
    by (simp_all add: F_def)
  from reduce_keeps_marks [of "{0, length F - 1}" m t F 0 "length F - 1"]
  have "0 \<in> key" "length F - Suc 0 \<in> key"
    by (auto simp: key_def)
  from nths_keeps_ends [OF F(2) this]
  have "subseq (nths F key) F" "nths F key \<noteq> []" "hd (nths F key) = hd F"
    "last (nths F key) = last F"
    by simp_all
  moreover have "simplify m t p = Inr (nths F key)"
    using assms by (simp add: simplify_def Let_def F_def key_def)
  ultimately show ?thesis
    using F by (metis subseq_order.order_trans)
qed

subsection \<open>Rounded distances on four vertices\<close>

lemmas rounding = round_double_def quantum_def exponent_def halvings.simps doublings.simps
  round_even_def pow2_def

lemmas vec_ops = coords_def diff2vec_def dot2vec_def mag2vec_def magDiff2vec_def

lemma zigzag_tol2: "fl Double (Fin zigzag_tolerance * Fin zigzag_tolerance) = Fin (7625985620967425 / 67108864)"
  by (simp add: zigzag_tolerance_def fin_arith rounding)

lemma zigzag_radial:
  "magDiff2vec Double (coords (9583, 5349)) (coords (0, 0)) = Fin 120445690"
  "magDiff2vec Double (coords (- 21, 10660)) (coords (9583, 5349)) = Fin 120443537"
  "magDiff2vec Double (coords (38579, 76)) (coords (- 21, 10660)) = Fin 1601981056"
  "magDiff2vec Double (coords (- 21, 10660)) (coords (0, 0)) = Fin 113636041"
  "magDiff2vec Double (coords (38579, 76)) (coords (0, 0)) = Fin 1488345017"
  by (simp_all add: vec_ops fin_arith rounding)

lemma zigzag_seg_dist_a:
  "seg_dist Double (0, 0) (38579, 76) (9583, 5349) = Fin (3813137263859883 / 134217728)"
  by (simp add: seg_dist_def Let_def vec_ops fin_arith Fin_le rounding)

lemma zigzag_seg_dist_b:
  "seg_dist Double (0, 0) (38579, 76) (- 21, 10660) = Fin (3812992810483713 / 33554432)"
  by (simp add: seg_dist_def Let_def vec_ops fin_arith Fin_le rounding)

lemma zigzag_seg_dist_c:
  "seg_dist Double (0, 0) (- 21, 10660) (9583, 5349) = Fin (6176404780977837 / 67108864)"
  by (simp add: seg_dist_def Let_def vec_ops fin_arith Fin_le rounding)

lemma zigzag_max_scan_a:
  "max_scan Double zigzag 0 3 = (2, Fin (3812992810483713 / 33554432))"
  by (simp add: max_scan_def scan_step_def zigzag_def upt_conv_Cons zigzag_seg_dist_a zigzag_seg_dist_b Fin_le)

lemma zigzag_max_scan_b:
  "max_scan Double zigzag 0 2 = (1, Fin (6176404780977837 / 67108864))"
  by (simp add: max_scan_def scan_step_def zigzag_def upt_conv_Cons zigzag_seg_dist_c Fin_le)

lemma zigzag_reduce: "reduce Double zigzag_tolerance zigzag 0 3 {0, 3} = {0, 2, 3}"
proof -
  have "reduce Double zigzag_tolerance zigzag 0 2 {0, 2, 3} = {0, 2, 3}"
    by (simp add: reduce.simps [of Double zigzag_tolerance zigzag 0 2] zigzag_max_scan_b zigzag_tol2 Fin_less)
  moreover have "reduce Double zigzag_tolerance zigzag 2 3 {0, 2, 3} = {0, 2, 3}"
    by (simp add: reduce.simps [of Double zigzag_tolerance zigzag 2 3])
  ultimately show ?thesis
    by (simp add: reduce.simps [of Double zigzag_tolerance zigzag 0 3] zigzag_max_scan_a zigzag_tol2 Fin_less insert_commute)
qed

lemma zigzag_radial_filter: "radial_filter Double (Fin (7625985620967425 / 67108864)) zigzag = zigzag"
  by (simp add: radial_filter_def radial_step_def zigzag_def upt_conv_Cons zigzag_radial Fin_less)

lemma simplify_zigzag: "simplify Double zigzag_tolerance zigzag = Inr [(0, 0), (- 21, 10660), (38579, 76)]"
proof -
  have "nths zigzag {0, 2, 3} = [(0, 0), (- 21, 10660), (38579, 76)]"
    by (simp add: zigzag_def nths_Cons)
  moreover have "zigzag \<noteq> []" by (simp add: zigzag_def)
  moreover have "length zigzag = 4" by (simp add: zigzag_def)
  ultimately show ?thesis
    by (simp add: simplify_def Let_def zigzag_tol2 zigzag_radial_filter zigzag_reduce)
qed

lemma simplify_zigzag_again:
  "simplify Double zigzag_tolerance [(0, 0), (- 21, 10660), (38579, 76)] = Inr [(0, 0), (38579, 76)]"
proof -
  have r: "radial_filter Double (Fin (7625985620967425 / 67108864))
      [(0, 0), (- 21, 10660), (38579, 76)] = [(0, 0), (38579, 76)]"
    by (simp add: radial_filter_def radial_step_def upt_conv_Cons zigzag_radial Fin_less)
  have "reduce Double zigzag_tolerance [(0, 0), (38579, 76)] 0 1 {0, 1} = {0, 1}"
    by (subst reduce.simps) simp
  moreover have "nths [(0, 0), (38579, 76)] {0, 1} = [(0 :: real, 0 :: real), (38579, 76)]"
    by (simp add: nths_Cons)
  ultimately show ?thesis
    by (simp add: simplify_def Let_def zigzag_tol2 r)
qed

text \<open>
  C7, against idempotence in the arithmetic of the program.  On the vertices \<open>(0,0)\<close>,
  \<open>(9583,5349)\<close>, \<open>(-21,10660)\<close>, \<open>(38579,76)\<close> with the tolerance \<open>10660.020684782934\<close>
  the first run keeps \<open>(-21,10660)\<close>: its rounded squared distance from the segment
  between the ends is \<open>3812992810483713 / 2\<^sup>2\<^sup>5\<close>, above the rounded squared tolerance
  \<open>7625985620967425 / 2\<^sup>2\<^sup>6\<close>.  In the second run that vertex follows \<open>(0,0)\<close>, its
  squared distance from it is \<open>113636041\<close>, below the squared tolerance, and the radial
  pre-filter removes it.
\<close>

theorem simplify_not_idempotent:
  "round_double 10660.020684782934 = Fin zigzag_tolerance \<and>
   simplify Double zigzag_tolerance zigzag = Inr [(0, 0), (- 21, 10660), (38579, 76)] \<and>
   simplify_twice Double zigzag_tolerance zigzag = Inr [(0, 0), (38579, 76)]"
proof -
  have "round_double 10660.020684782934 = Fin zigzag_tolerance"
    by (simp add: zigzag_tolerance_def rounding)
  then show ?thesis
    by (simp add: simplify_twice_def simplify_zigzag simplify_zigzag_again)
qed

text \<open>
  C7, as the code has it.  A second run of \<open>simplify\<close> with the same tolerance returns a
  subsequence of the result of the first run, with the same first and the same last
  vertex; on a polygon without vertices both runs throw a TypeError.  This holds in the
  arithmetic of the program and in exact arithmetic.  When no operation rounds, the
  second run returns the result of the first.
\<close>

theorem simplify_twice_subsequence:
  "((p = [] \<and> simplify m t p = Inl TypeError \<and> simplify_twice m t p = Inl TypeError) \<or>
    (\<exists>q q2. simplify m t p = Inr q \<and> simplify_twice m t p = Inr q2 \<and>
       subseq q2 q \<and> q2 \<noteq> [] \<and> hd q2 = hd q \<and> last q2 = last q)) \<and>
   simplify_twice Exact t p = simplify Exact t p"
proof
  show "simplify_twice Exact t p = simplify Exact t p"
    by (simp add: simplify_twice_Exact simplify_Exact simplify_real_idempotent)
  show "(p = [] \<and> simplify m t p = Inl TypeError \<and> simplify_twice m t p = Inl TypeError) \<or>
    (\<exists>q q2. simplify m t p = Inr q \<and> simplify_twice m t p = Inr q2 \<and>
       subseq q2 q \<and> q2 \<noteq> [] \<and> hd q2 = hd q \<and> last q2 = last q)"
  proof (cases "p = []")
    case True
    then show ?thesis
      by (simp add: simplify_def simplify_twice_def)
  next
    case False
    from simplify_subseq [OF False, of m t] obtain q
      where q: "simplify m t p = Inr q" "q \<noteq> []" by blast
    from simplify_subseq [OF q(2), of m t] obtain q2
      where "simplify m t q = Inr q2" "subseq q2 q" "q2 \<noteq> []" "hd q2 = hd q" "last q2 = last q"
      by blast
    with q show ?thesis
      by (simp add: simplify_twice_def)
  qed
qed

end
